theory Spec2Isabelle
  imports Main "HOL-Library.Multiset" "HOL-Library.Sublist"
begin

section \<open>Go's \<open>int\<close>\<close>

text \<open>
  A Go \<open>int\<close> has 64 bits on the platforms the tools are built for, and so has a
  \<open>time.Duration\<close>; their arithmetic wraps around. \<open>wrap64\<close> is the value an
  operation leaves: the two's complement reading of the low 64 bits of the exact
  result.
\<close>

definition wrap64 :: "int \<Rightarrow> int" where
  "wrap64 x = (x + 9223372036854775808) mod 18446744073709551616 - 9223372036854775808"

lemma wrap64_id:
  "- 9223372036854775808 \<le> x \<Longrightarrow> x < 9223372036854775808 \<Longrightarrow> wrap64 x = x"
  by (simp add: wrap64_def)

section \<open>ChangeWatcher: comparing two snapshots\<close>

text \<open>
  The watcher keeps a snapshot as a Go map from path to \<open>FileState\<close>. Go visits the
  keys of a map in an unspecified order, so a snapshot is modelled as an association
  list with distinct keys: the list order stands for the order in which \<open>range\<close>
  happens to visit the entries, and \<open>map_of\<close> is the lookup \<open>m[p]\<close>.

  A \<open>time.Time\<close> is the struct \<open>{wall uint64; ext int64; loc *Location}\<close>. The code
  compares two of them with \<open>!=\<close>, which Go defines on structs field by field, and
  on the field \<open>loc\<close> as the comparison of two pointers. The pointer is \<open>nil\<close> for
  UTC, the address of the package's \<open>localLoc\<close> for \<open>time.Local\<close>, and the address
  of some other \<open>Location\<close> otherwise. Equality of the record below is this \<open>==\<close>.
\<close>

datatype location = NilLoc | LocalLoc | OtherLoc nat

record Time =
  tm_wall :: int
  tm_ext :: int
  tm_loc :: location

text \<open>
  A time read from the metadata of a file (\<open>info.ModTime()\<close>) or decoded from JSON
  carries no monotonic clock reading: \<open>wall\<close> holds its nanoseconds and \<open>ext\<close> its
  seconds since year 1. Two such times are the same instant (\<open>t.Equal(u)\<close>) when
  these two fields agree, whatever their locations.
\<close>

definition sameInstant :: "Time \<Rightarrow> Time \<Rightarrow> bool" where
  "sameInstant t u \<longleftrightarrow> tm_wall t = tm_wall u \<and> tm_ext t = tm_ext u"

record FileState =
  fs_ModTime :: Time
  fs_Size :: int

record FileEvent =
  ev_Type :: string
  ev_Path :: string
  ev_Timestamp :: Time
  ev_Size :: int

type_synonym snapshot = "(string \<times> FileState) list"

text \<open>First loop of \<open>compareStates\<close>: \<open>for p, os := range old\<close>.\<close>

fun scanOld :: "snapshot \<Rightarrow> snapshot \<Rightarrow> Time \<Rightarrow> FileEvent list" where
  "scanOld [] new now = []"
| "scanOld ((p, os) # rest) new now =
     (case map_of new p of
        None \<Rightarrow>
          \<lparr>ev_Type = ''deleted'', ev_Path = p, ev_Timestamp = now, ev_Size = 0\<rparr>
            # scanOld rest new now
      | Some ns \<Rightarrow>
          if fs_ModTime ns \<noteq> fs_ModTime os
          then \<lparr>ev_Type = ''modified'', ev_Path = p, ev_Timestamp = fs_ModTime ns,
                 ev_Size = fs_Size ns\<rparr> # scanOld rest new now
          else scanOld rest new now)"

text \<open>Second loop: \<open>for p, s := range new\<close>.\<close>

fun scanNew :: "snapshot \<Rightarrow> snapshot \<Rightarrow> FileEvent list" where
  "scanNew old [] = []"
| "scanNew old ((p, s) # rest) =
     (case map_of old p of
        None \<Rightarrow>
          \<lparr>ev_Type = ''created'', ev_Path = p, ev_Timestamp = fs_ModTime s,
            ev_Size = fs_Size s\<rparr> # scanNew old rest
      | Some _ \<Rightarrow> scanNew old rest)"

definition compareStates :: "snapshot \<Rightarrow> snapshot \<Rightarrow> Time \<Rightarrow> FileEvent list" where
  "compareStates old new now = scanOld old new now @ scanNew old new"

text \<open>The kind and path of an event, and the exchange of created and deleted.\<close>

definition kindPath :: "FileEvent \<Rightarrow> string \<times> string" where
  "kindPath e = (ev_Type e, ev_Path e)"

definition swapKind :: "string \<times> string \<Rightarrow> string \<times> string" where
  "swapKind kp =
     (if fst kp = ''created'' then (''deleted'', snd kp)
      else if fst kp = ''deleted'' then (''created'', snd kp)
      else kp)"

lemma scanOld_kinds:
  "kindPath ` set (scanOld xs new now) =
     {(''deleted'', p) | p. p \<in> fst ` set xs \<and> map_of new p = None} \<union>
     {(''modified'', p) | p. \<exists>os ns. (p, os) \<in> set xs \<and> map_of new p = Some ns
                                \<and> fs_ModTime ns \<noteq> fs_ModTime os}"
proof (induction xs)
  case Nil
  show ?case by simp
next
  case (Cons x xs)
  obtain p os where x: "x = (p, os)" by (cases x)
  show ?case
  proof (cases "map_of new p")
    case None
    with Cons x show ?thesis by (auto simp: kindPath_def image_iff)
  next
    case (Some ns)
    with Cons x show ?thesis by (auto simp: kindPath_def image_iff)
  qed
qed

lemma scanNew_kinds:
  "kindPath ` set (scanNew old ys) =
     {(''created'', p) | p. p \<in> fst ` set ys \<and> map_of old p = None}"
proof (induction ys)
  case Nil
  show ?case by simp
next
  case (Cons y ys)
  obtain p s where y: "y = (p, s)" by (cases y)
  from Cons y show ?case
    by (cases "map_of old p") (auto simp: kindPath_def image_iff)
qed

lemma compare_kinds:
  assumes "distinct (map fst S1)" and "distinct (map fst S2)"
  shows "kindPath ` set (compareStates S1 S2 now) =
     {(''deleted'', p) | p. map_of S1 p \<noteq> None \<and> map_of S2 p = None} \<union>
     {(''modified'', p) | p. \<exists>os ns. map_of S1 p = Some os \<and> map_of S2 p = Some ns
                                \<and> fs_ModTime ns \<noteq> fs_ModTime os} \<union>
     {(''created'', p) | p. map_of S2 p \<noteq> None \<and> map_of S1 p = None}"
proof -
  have mem1: "\<And>p os. (p, os) \<in> set S1 \<longleftrightarrow> map_of S1 p = Some os"
    using assms(1) by simp
  have dom1: "\<And>p. p \<in> fst ` set S1 \<longleftrightarrow> map_of S1 p \<noteq> None"
    by (simp add: map_of_eq_None_iff)
  have dom2: "\<And>p. p \<in> fst ` set S2 \<longleftrightarrow> map_of S2 p \<noteq> None"
    by (simp add: map_of_eq_None_iff)
  show ?thesis
    unfolding compareStates_def set_append image_Un scanOld_kinds scanNew_kinds
      mem1 dom1 dom2
    by blast
qed

lemma scanOld_same:
  "(\<And>p os. (p, os) \<in> set xs \<Longrightarrow> map_of new p = Some os) \<Longrightarrow> scanOld xs new now = []"
proof (induction xs)
  case Nil
  show ?case by simp
next
  case (Cons x xs)
  obtain p os where x: "x = (p, os)" by (cases x)
  have "map_of new p = Some os" using Cons.prems [of p os] x by simp
  moreover have "scanOld xs new now = []" using Cons by simp
  ultimately show ?case using x by simp
qed

lemma scanNew_same:
  "(\<And>p. p \<in> fst ` set ys \<Longrightarrow> map_of old p \<noteq> None) \<Longrightarrow> scanNew old ys = []"
proof (induction ys)
  case Nil
  show ?case by simp
next
  case (Cons y ys)
  obtain p s where y: "y = (p, s)" by (cases y)
  have "map_of old p \<noteq> None" using Cons.prems [of p] y by simp
  moreover have "scanNew old ys = []" using Cons by simp
  ultimately show ?case using y by auto
qed

lemma compareStates_self:
  assumes "distinct (map fst S)"
  shows "compareStates S S now = []"
proof -
  have "scanOld S S now = []"
    using assms by (intro scanOld_same) simp
  moreover have "scanNew S S = []"
    by (intro scanNew_same) (simp add: map_of_eq_None_iff)
  ultimately show ?thesis by (simp add: compareStates_def)
qed

lemma swapKind_simps:
  "swapKind (''created'', p) = (''deleted'', p)"
  "swapKind (''deleted'', p) = (''created'', p)"
  "swapKind (''modified'', p) = (''modified'', p)"
  by (simp_all add: swapKind_def)

text \<open>
  What the comparison does for every pair of snapshots: comparing a snapshot with
  itself yields no event; comparing in the two directions yields the same paths, with
  created and deleted exchanged and modified kept (events are compared by kind and
  path: the reverse comparison reports the other snapshot's time and size); and a
  path whose two recorded times are equal under \<open>==\<close> is not reported, whatever the
  two sizes are.
\<close>

lemma compareStates_kinds_swapped:
  assumes "distinct (map fst S1)" and "distinct (map fst S2)"
  shows "kindPath ` set (compareStates S2 S1 now') =
           swapKind ` kindPath ` set (compareStates S1 S2 now)"
  unfolding compare_kinds [OF assms(2) assms(1)] compare_kinds [OF assms(1) assms(2)]
    image_Un
  by (auto simp: swapKind_simps image_iff)

lemma compareStates_identical_time:
  assumes "distinct (map fst S1)" and "distinct (map fst S2)"
    and "map_of S1 p = Some a" and "map_of S2 p = Some b"
    and "fs_ModTime a = fs_ModTime b"
  shows "p \<notin> ev_Path ` set (compareStates S1 S2 now)"
proof -
  have "\<And>k. (k, p) \<notin> kindPath ` set (compareStates S1 S2 now)"
    unfolding compare_kinds [OF assms(1) assms(2)] using assms(3-5) by auto
  then show ?thesis
    by (force simp: kindPath_def image_iff)
qed

text \<open>
  C8 at a concrete comparison, as \<open>compareSnapshot\<close> makes it on a machine whose local
  time zone is UTC. The old snapshot was written as JSON, where the time of \<open>a.go\<close>
  reads \<open>2024-01-01T00:00:00Z\<close>; decoding it gives a time in UTC, whose location
  pointer is \<open>nil\<close>. The current state has the time \<open>info.ModTime()\<close> of the untouched
  file: the same instant in \<open>time.Local\<close>. The two structs differ in the pointer, so
  \<open>!=\<close> holds and the file whose modified time did not change is reported as
  modified.
\<close>

theorem compareStates_same_instant_modified:
  "compareStates
     [(''a.go'', \<lparr>fs_ModTime = \<lparr>tm_wall = 0, tm_ext = 63839664000, tm_loc = NilLoc\<rparr>,
                  fs_Size = 5\<rparr>)]
     [(''a.go'', \<lparr>fs_ModTime = \<lparr>tm_wall = 0, tm_ext = 63839664000, tm_loc = LocalLoc\<rparr>,
                  fs_Size = 5\<rparr>)]
     \<lparr>tm_wall = 0, tm_ext = 63839750400, tm_loc = LocalLoc\<rparr>
   = [\<lparr>ev_Type = ''modified'', ev_Path = ''a.go'',
        ev_Timestamp = \<lparr>tm_wall = 0, tm_ext = 63839664000, tm_loc = LocalLoc\<rparr>,
        ev_Size = 5\<rparr>] \<and>
   sameInstant \<lparr>tm_wall = 0, tm_ext = 63839664000, tm_loc = NilLoc\<rparr>
               \<lparr>tm_wall = 0, tm_ext = 63839664000, tm_loc = LocalLoc\<rparr>"
  by (simp add: compareStates_def sameInstant_def)

section \<open>TaskRunner: running shell tasks in a bounded pool\<close>

record Task =
  t_ID :: string
  t_Command :: string
  t_Dir :: string

record TaskResult =
  r_ID :: string
  r_Command :: string
  r_Stdout :: string
  r_Stderr :: string
  r_ExitCode :: int
  r_Duration :: int
  r_Success :: bool
  r_Error :: string

record RunnerResult =
  rr_Results :: "TaskResult list"
  rr_TotalTasks :: int
  rr_SuccessCount :: int
  rr_FailCount :: int
  rr_TotalDuration :: int

subsection \<open>The subprocess, as \<open>os/exec\<close> reports it\<close>

text \<open>
  \<open>runTask\<close> starts \<open>sh -c command\<close> with \<open>exec.CommandContext\<close> under a context
  that expires after \<open>timeout\<close> seconds, and calls \<open>cmd.Output()\<close>. What the code sees
  of the subprocess is the triple (bytes of standard output, \<open>err\<close>, \<open>ctx.Err()\<close>).
  The error is either an \<open>*exec.ExitError\<close>, of which the code reads \<open>ExitCode()\<close>
  and \<open>Stderr\<close>, or some other error, of which it reads \<open>Error()\<close>.
\<close>

datatype exec_error =
    ExitError int string
  | OtherError string

record exec_outcome =
  o_stdout :: string
  o_err :: "exec_error option"
  o_deadlineExceeded :: bool
  o_elapsed :: int

text \<open>
  The behaviour of the subprocess itself: it cannot be started; or it would exit by
  itself after \<open>p_runtime\<close> milliseconds with status \<open>p_status\<close>, and \<open>p_stdout\<close> and
  \<open>p_stderr\<close> are what it has written when it ends, by itself or killed at the
  deadline.
\<close>

datatype process =
    CannotStart string
  | Runs (p_runtime: int) (p_status: int) (p_stdout: string) (p_stderr: string)

text \<open>
  \<open>cmd.Output()\<close> under a context with a deadline, following the documentation of
  Go's \<open>os/exec\<close> and \<open>os\<close> packages:
  \<^item> the context expires after \<open>time.Duration(timeout)*time.Second\<close>, a product of
    64-bit integers that wraps around; a duration that is not positive gives a
    context that is done from the start;
  \<^item> when the context is done before the process is started, \<open>Start\<close> returns the
    context's error and no process runs;
  \<^item> when the context becomes done while the process runs, the process is killed;
    \<open>Wait\<close> then reports a process that did not complete successfully, so the error
    is an \<open>*exec.ExitError\<close>, and \<open>ExitCode()\<close> of a process terminated by a signal
    is \<open>-1\<close>;
  \<^item> a process that exits by itself with a non-zero status gives an
    \<open>*exec.ExitError\<close> carrying that status; \<open>Output\<close> stores the captured standard
    error in it;
  \<^item> status zero gives no error.
  \<open>Output\<close> returns what the process has written when it ends, also when it is
  killed. The time measured for a killed process is taken to be the time of the
  deadline (\<open>Wait\<close> returns some time after it).
\<close>

definition cmdOutput :: "process \<Rightarrow> int \<Rightarrow> exec_outcome" where
  "cmdOutput pr timeout =
     (let deadline = wrap64 (timeout * 1000000000)
      in if deadline \<le> 0 then
        \<lparr>o_stdout = [], o_err = Some (OtherError ''context deadline exceeded''),
          o_deadlineExceeded = True, o_elapsed = 0\<rparr>
      else case pr of
        CannotStart msg \<Rightarrow>
          \<lparr>o_stdout = [], o_err = Some (OtherError msg),
            o_deadlineExceeded = False, o_elapsed = 0\<rparr>
      | Runs ms status out errout \<Rightarrow>
          if deadline < ms * 1000000 then
            \<lparr>o_stdout = out, o_err = Some (ExitError (- 1) errout),
              o_deadlineExceeded = True, o_elapsed = deadline div 1000000\<rparr>
          else if status \<noteq> 0 then
            \<lparr>o_stdout = out, o_err = Some (ExitError status errout),
              o_deadlineExceeded = False, o_elapsed = ms\<rparr>
          else
            \<lparr>o_stdout = out, o_err = None, o_deadlineExceeded = False, o_elapsed = ms\<rparr>)"

subsection \<open>\<open>runTask\<close> and \<open>runTasks\<close>\<close>

text \<open>
  The operating system is the parameter \<open>sh\<close>: the behaviour of \<open>sh -c command\<close>
  started in \<open>workDir\<close>. The branches on \<open>err\<close> are in the order of the source: the
  type test for \<open>*exec.ExitError\<close> comes first, the test of \<open>ctx.Err()\<close> second.
\<close>

definition runTask :: "(string \<Rightarrow> string \<Rightarrow> process) \<Rightarrow> Task \<Rightarrow> int \<Rightarrow> string \<Rightarrow> TaskResult" where
  "runTask sh task timeout defaultDir =
     (let result = \<lparr>r_ID = t_ID task, r_Command = t_Command task, r_Stdout = [],
                     r_Stderr = [], r_ExitCode = 0, r_Duration = 0, r_Success = False,
                     r_Error = []\<rparr>;
          workDir = (if t_Dir task = [] then defaultDir else t_Dir task);
          outcome = cmdOutput (sh workDir (t_Command task)) timeout;
          result = result\<lparr>r_Duration := o_elapsed outcome\<rparr>;
          result =
            (case o_err outcome of
               Some e \<Rightarrow>
                 (case e of
                    ExitError code errout \<Rightarrow> result\<lparr>r_ExitCode := code, r_Stderr := errout\<rparr>
                  | OtherError msg \<Rightarrow>
                      if o_deadlineExceeded outcome
                      then result\<lparr>r_Error := ''timeout exceeded'', r_ExitCode := - 1\<rparr>
                      else result\<lparr>r_Error := msg, r_ExitCode := - 1\<rparr>)
                   \<lparr>r_Success := False\<rparr>
             | None \<Rightarrow> result\<lparr>r_ExitCode := 0, r_Success := True\<rparr>)
      in result\<lparr>r_Stdout := o_stdout outcome\<rparr>)"

text \<open>The zero value of \<open>TaskResult\<close>, with which \<open>make\<close> fills the results slice.\<close>

definition zeroTaskResult :: TaskResult where
  "zeroTaskResult = \<lparr>r_ID = [], r_Command = [], r_Stdout = [], r_Stderr = [],
                      r_ExitCode = 0, r_Duration = 0, r_Success = False, r_Error = []\<rparr>"

text \<open>
  The section of a worker under the mutex: store the result at the job's index and
  count it.
\<close>

definition recordResult :: "RunnerResult \<Rightarrow> nat \<Rightarrow> TaskResult \<Rightarrow> RunnerResult" where
  "recordResult result idx taskResult =
     (let result = result\<lparr>rr_Results := (rr_Results result)[idx := taskResult]\<rparr>
      in if r_Success taskResult
         then result\<lparr>rr_SuccessCount := rr_SuccessCount result + 1\<rparr>
         else result\<lparr>rr_FailCount := rr_FailCount result + 1\<rparr>)"

text \<open>
  The workers take the indices \<open>0, ..., len(tasks) - 1\<close> from the channel \<open>jobs\<close>, each
  index exactly once, and enter the mutex in some order. That order is the parameter
  \<open>order\<close>, a permutation of the indices; job \<open>idx\<close> runs against its own operating
  system behaviour \<open>sh idx\<close>.
\<close>

fun runJobs :: "(nat \<Rightarrow> string \<Rightarrow> string \<Rightarrow> process) \<Rightarrow> Task list \<Rightarrow> int \<Rightarrow> string \<Rightarrow>
                nat list \<Rightarrow> RunnerResult \<Rightarrow> RunnerResult" where
  "runJobs sh tasks timeout defaultDir [] result = result"
| "runJobs sh tasks timeout defaultDir (idx # rest) result =
     runJobs sh tasks timeout defaultDir rest
       (recordResult result idx (runTask (sh idx) (tasks ! idx) timeout defaultDir))"

definition runTasks :: "(nat \<Rightarrow> string \<Rightarrow> string \<Rightarrow> process) \<Rightarrow> nat list \<Rightarrow> int \<Rightarrow>
                         Task list \<Rightarrow> int \<Rightarrow> int \<Rightarrow> string \<Rightarrow> RunnerResult" where
  "runTasks sh order wallclock tasks maxWorkers timeout defaultDir =
     (let maxWorkers = (if maxWorkers \<le> 0 then 4 else maxWorkers);
          result = \<lparr>rr_Results = replicate (length tasks) zeroTaskResult,
                     rr_TotalTasks = int (length tasks), rr_SuccessCount = 0,
                     rr_FailCount = 0, rr_TotalDuration = 0\<rparr>;
          result = runJobs sh tasks timeout defaultDir order result
      in result\<lparr>rr_TotalDuration := wallclock\<rparr>)"

lemma runTask_id: "r_ID (runTask sh task timeout defaultDir) = t_ID task"
  by (simp add: runTask_def Let_def split: option.splits exec_error.splits)

lemma runTask_command: "r_Command (runTask sh task timeout defaultDir) = t_Command task"
  by (simp add: runTask_def Let_def split: option.splits exec_error.splits)

lemma recordResult_length:
  "length (rr_Results (recordResult result idx tr)) = length (rr_Results result)"
  by (simp add: recordResult_def Let_def)

lemma recordResult_counts:
  "rr_SuccessCount (recordResult result idx tr) + rr_FailCount (recordResult result idx tr)
     = rr_SuccessCount result + rr_FailCount result + 1"
  by (simp add: recordResult_def Let_def)

lemma recordResult_total:
  "rr_TotalTasks (recordResult result idx tr) = rr_TotalTasks result"
  by (simp add: recordResult_def Let_def)

lemma recordResult_nth:
  "i < length (rr_Results result) \<Longrightarrow>
   rr_Results (recordResult result idx tr) ! i = (if i = idx then tr else rr_Results result ! i)"
  by (simp add: recordResult_def Let_def nth_list_update)

lemma runJobs_length:
  "length (rr_Results (runJobs sh tasks timeout defaultDir order result))
     = length (rr_Results result)"
  by (induction order arbitrary: result) (simp_all add: recordResult_length)

lemma runJobs_total:
  "rr_TotalTasks (runJobs sh tasks timeout defaultDir order result) = rr_TotalTasks result"
  by (induction order arbitrary: result) (simp_all add: recordResult_total)

lemma runJobs_counts:
  "rr_SuccessCount (runJobs sh tasks timeout defaultDir order result)
     + rr_FailCount (runJobs sh tasks timeout defaultDir order result)
   = rr_SuccessCount result + rr_FailCount result + int (length order)"
proof (induction order arbitrary: result)
  case Nil
  show ?case by simp
next
  case (Cons idx rest)
  show ?case
    using Cons.IH [of "recordResult result idx (runTask (sh idx) (tasks ! idx) timeout defaultDir)"]
    by (simp add: recordResult_counts)
qed

lemma runJobs_nth:
  "i < length (rr_Results result) \<Longrightarrow>
   rr_Results (runJobs sh tasks timeout defaultDir order result) ! i =
     (if i \<in> set order then runTask (sh i) (tasks ! i) timeout defaultDir
      else rr_Results result ! i)"
proof (induction order arbitrary: result)
  case Nil
  show ?case by simp
next
  case (Cons idx rest)
  let ?r = "recordResult result idx (runTask (sh idx) (tasks ! idx) timeout defaultDir)"
  have len: "i < length (rr_Results ?r)"
    using Cons.prems by (simp add: recordResult_length)
  show ?case
    using Cons.IH [OF len] Cons.prems by (auto simp: recordResult_nth)
qed

text \<open>
  C10. Whatever the order in which the workers deliver their results, the results
  slice has one entry per input task, the entry at index \<open>i\<close> carries the ID and the
  command of the \<open>i\<close>-th task, and the success and failure counts add up to the number
  of tasks.
\<close>

theorem runTasks_one_result_per_task:
  assumes "mset order = mset [0..<length tasks]"
  shows "length (rr_Results (runTasks sh order wallclock tasks maxWorkers timeout defaultDir))
           = length tasks \<and>
         (\<forall>i < length tasks.
            r_ID (rr_Results (runTasks sh order wallclock tasks maxWorkers timeout defaultDir) ! i)
              = t_ID (tasks ! i) \<and>
            r_Command (rr_Results (runTasks sh order wallclock tasks maxWorkers timeout defaultDir) ! i)
              = t_Command (tasks ! i)) \<and>
         rr_SuccessCount (runTasks sh order wallclock tasks maxWorkers timeout defaultDir)
           + rr_FailCount (runTasks sh order wallclock tasks maxWorkers timeout defaultDir)
           = rr_TotalTasks (runTasks sh order wallclock tasks maxWorkers timeout defaultDir)"
proof -
  have len: "length order = length tasks"
    using assms by (metis size_mset length_upt diff_zero)
  have mem: "\<And>i. i < length tasks \<Longrightarrow> i \<in> set order"
    using assms by (metis set_mset_mset atLeastLessThan_iff set_upt zero_le)
  show ?thesis
    by (simp add: runTasks_def Let_def runJobs_length runJobs_total runJobs_counts
        runJobs_nth mem len runTask_id runTask_command)
qed

theorem runTasks_one_result_per_task_witness:
  "length (rr_Results (runTasks (\<lambda>i d c. Runs 5 (int i) c []) [1, 0] 9
      [\<lparr>t_ID = ''a'', t_Command = ''true'', t_Dir = []\<rparr>,
       \<lparr>t_ID = ''b'', t_Command = ''false'', t_Dir = []\<rparr>] 2 60 ''.'')) = 2 \<and>
   map r_ID (rr_Results (runTasks (\<lambda>i d c. Runs 5 (int i) c []) [1, 0] 9
      [\<lparr>t_ID = ''a'', t_Command = ''true'', t_Dir = []\<rparr>,
       \<lparr>t_ID = ''b'', t_Command = ''false'', t_Dir = []\<rparr>] 2 60 ''.'')) = [''a'', ''b''] \<and>
   rr_SuccessCount (runTasks (\<lambda>i d c. Runs 5 (int i) c []) [1, 0] 9
      [\<lparr>t_ID = ''a'', t_Command = ''true'', t_Dir = []\<rparr>,
       \<lparr>t_ID = ''b'', t_Command = ''false'', t_Dir = []\<rparr>] 2 60 ''.'') = 1 \<and>
   rr_FailCount (runTasks (\<lambda>i d c. Runs 5 (int i) c []) [1, 0] 9
      [\<lparr>t_ID = ''a'', t_Command = ''true'', t_Dir = []\<rparr>,
       \<lparr>t_ID = ''b'', t_Command = ''false'', t_Dir = []\<rparr>] 2 60 ''.'') = 1"
proof -
  have perm: "mset [1, 0 :: nat] =
      mset [0..<length [\<lparr>t_ID = ''a'', t_Command = ''true'', t_Dir = []\<rparr>,
                        \<lparr>t_ID = ''b'', t_Command = ''false'', t_Dir = []\<rparr>]]"
    by (simp add: upt_rec)
  note inst = runTasks_one_result_per_task [OF perm,
      of "\<lambda>i d c. Runs 5 (int i) c []" 9 2 60 "''.''"]
  have run: "runTasks (\<lambda>i d c. Runs 5 (int i) c []) [1, 0] 9
      [\<lparr>t_ID = ''a'', t_Command = ''true'', t_Dir = []\<rparr>,
       \<lparr>t_ID = ''b'', t_Command = ''false'', t_Dir = []\<rparr>] 2 60 ''.'' =
     \<lparr>rr_Results =
        [\<lparr>r_ID = ''a'', r_Command = ''true'', r_Stdout = ''true'', r_Stderr = [],
          r_ExitCode = 0, r_Duration = 5, r_Success = True, r_Error = []\<rparr>,
         \<lparr>r_ID = ''b'', r_Command = ''false'', r_Stdout = ''false'', r_Stderr = [],
          r_ExitCode = 1, r_Duration = 5, r_Success = False, r_Error = []\<rparr>],
       rr_TotalTasks = 2, rr_SuccessCount = 1, rr_FailCount = 1, rr_TotalDuration = 9\<rparr>"
    by (simp add: runTasks_def runTask_def cmdOutput_def wrap64_def recordResult_def zeroTaskResult_def
        Let_def)
  show ?thesis using inst unfolding run by simp
qed

text \<open>
  C3 at a concrete run. The task \<open>sleep 5\<close> under a timeout of one second is killed at
  the deadline. The error the code sees is an \<open>*exec.ExitError\<close>, so the first branch
  is taken: the exit code is \<open>-1\<close>, but the error field stays empty and the result does
  not say that the task timed out. It is the same result as for a task killed by any
  other signal. In a run of two tasks the other task completes and is counted as a
  success, and the killed one is counted as a failure.
\<close>

theorem runTask_timeout_unclassified:
  "runTask (\<lambda>d c. Runs 5000 0 [] []) \<lparr>t_ID = ''t1'', t_Command = ''sleep 5'', t_Dir = []\<rparr> 1 ''.''
     = \<lparr>r_ID = ''t1'', r_Command = ''sleep 5'', r_Stdout = [], r_Stderr = [],
        r_ExitCode = - 1, r_Duration = 1000, r_Success = False, r_Error = []\<rparr> \<and>
   r_Error (runTask (\<lambda>d c. Runs 5000 0 [] [])
       \<lparr>t_ID = ''t1'', t_Command = ''sleep 5'', t_Dir = []\<rparr> 1 ''.'') \<noteq> ''timeout exceeded'' \<and>
   runTasks (\<lambda>i d c. if i = 0 then Runs 5000 0 [] [] else Runs 5 0 [] []) [1, 0] 1005
       [\<lparr>t_ID = ''t1'', t_Command = ''sleep 5'', t_Dir = []\<rparr>,
        \<lparr>t_ID = ''t2'', t_Command = ''true'', t_Dir = []\<rparr>] 2 1 ''.''
     = \<lparr>rr_Results =
          [\<lparr>r_ID = ''t1'', r_Command = ''sleep 5'', r_Stdout = [], r_Stderr = [],
            r_ExitCode = - 1, r_Duration = 1000, r_Success = False, r_Error = []\<rparr>,
           \<lparr>r_ID = ''t2'', r_Command = ''true'', r_Stdout = [], r_Stderr = [],
            r_ExitCode = 0, r_Duration = 5, r_Success = True, r_Error = []\<rparr>],
        rr_TotalTasks = 2, rr_SuccessCount = 1, rr_FailCount = 1, rr_TotalDuration = 1005\<rparr>"
  by (simp add: runTasks_def runTask_def cmdOutput_def wrap64_def recordResult_def zeroTaskResult_def
      Let_def)

section \<open>Go's \<open>strings\<close> functions used by the engines\<close>

text \<open>
  A Go string is a sequence of bytes, here a \<open>string\<close> (a list of characters).
  \<open>strings.Index\<close> gives the byte offset of the first occurrence, or \<open>-1\<close>.
\<close>

definition hasPrefix :: "string \<Rightarrow> string \<Rightarrow> bool" where
  "hasPrefix s pre = (take (length pre) s = pre)"

fun index :: "string \<Rightarrow> string \<Rightarrow> int" where
  "index [] sub = (if sub = [] then 0 else - 1)"
| "index (c # cs) sub =
     (if hasPrefix (c # cs) sub then 0
      else let r = index cs sub in if r < 0 then - 1 else r + 1)"

definition contains :: "string \<Rightarrow> string \<Rightarrow> bool" where
  "contains s sub = (0 \<le> index s sub)"

text \<open>
  \<open>strings.TrimSpace\<close> removes the leading and the trailing white space, as Unicode
  defines it (\<open>unicode.IsSpace\<close>): tab, line feed, vertical tab, form feed, carriage
  return, space, and the code points U+0085, U+00A0, U+1680, U+2000 to U+200A, U+2028,
  U+2029, U+202F, U+205F and U+3000. In the bytes of a string these are the UTF-8
  encodings below. No encoding is the end or the beginning of another, so the white
  space at an end of a string is found by comparing these byte sequences with it.
\<close>

definition spaceRunes :: "string list" where
  "spaceRunes =
     [[CHR 0x09], [CHR 0x0A], [CHR 0x0B], [CHR 0x0C], [CHR 0x0D], [CHR 0x20],
      [CHR 0xC2, CHR 0x85], [CHR 0xC2, CHR 0xA0], [CHR 0xE1, CHR 0x9A, CHR 0x80],
      [CHR 0xE2, CHR 0x80, CHR 0x80], [CHR 0xE2, CHR 0x80, CHR 0x81],
      [CHR 0xE2, CHR 0x80, CHR 0x82], [CHR 0xE2, CHR 0x80, CHR 0x83],
      [CHR 0xE2, CHR 0x80, CHR 0x84], [CHR 0xE2, CHR 0x80, CHR 0x85],
      [CHR 0xE2, CHR 0x80, CHR 0x86], [CHR 0xE2, CHR 0x80, CHR 0x87],
      [CHR 0xE2, CHR 0x80, CHR 0x88], [CHR 0xE2, CHR 0x80, CHR 0x89],
      [CHR 0xE2, CHR 0x80, CHR 0x8A], [CHR 0xE2, CHR 0x80, CHR 0xA8],
      [CHR 0xE2, CHR 0x80, CHR 0xA9], [CHR 0xE2, CHR 0x80, CHR 0xAF],
      [CHR 0xE2, CHR 0x81, CHR 0x9F], [CHR 0xE3, CHR 0x80, CHR 0x80]]"

text \<open>
  Removing from the front of a string every byte sequence of \<open>es\<close> found there;
  \<open>k\<close> counts the bytes still to remove of the sequence found last.
\<close>

fun dropRunes :: "string list \<Rightarrow> nat \<Rightarrow> string \<Rightarrow> string" where
  "dropRunes es k [] = []"
| "dropRunes es k (c # cs) =
     (if 0 < k then dropRunes es (k - 1) cs
      else case find (\<lambda>e. hasPrefix (c # cs) e) es of
             None \<Rightarrow> c # cs
           | Some e \<Rightarrow> dropRunes es (length e - 1) cs)"

definition trimSpace :: "string \<Rightarrow> string" where
  "trimSpace s = rev (dropRunes (map rev spaceRunes) 0 (rev (dropRunes spaceRunes 0 s)))"

section \<open>SymbolResolver: one definition, the other matches as references\<close>

record Location =
  l_File :: string
  l_Line :: int
  l_Column :: int
  l_Text :: string

record Symbol =
  s_Name :: string
  s_Type :: string
  s_Definition :: "Location option"
  s_References :: "Location list"

record ResolveResult =
  res_Symbols :: "Symbol list"
  res_TotalRefs :: int
  res_FilesCount :: int
  res_Error :: string

record match =
  m_loc :: Location
  m_isDef :: bool

text \<open>
  The table \<open>defPatterns\<close>. A pattern is named here by a constructor; its regular
  expression in the source is:
  \<^item> \<open>PyDef\<close>: \<^verbatim>\<open>^\s*def\s+(\w+)\<close>, \<open>PyClass\<close>: \<^verbatim>\<open>^\s*class\s+(\w+)\<close>;
  \<^item> \<open>GoFunc\<close>: \<^verbatim>\<open>^func\s+(\w+)\s*\(\<close>, \<open>GoMethod\<close>: \<^verbatim>\<open>^func\s+\([^)]+\)\s+(\w+)\s*\(\<close>,
    \<open>GoType\<close>: \<^verbatim>\<open>^type\s+(\w+)\<close>;
  \<^item> \<open>JsFunction\<close>: \<^verbatim>\<open>^function\s+(\w+)\<close>, \<open>JsClass\<close>: \<^verbatim>\<open>^class\s+(\w+)\<close>,
    \<open>JsVar\<close>: \<^verbatim>\<open>^(?:const|let|var)\s+(\w+)\s*=\<close>.
  The regular expression engine is a parameter of the model:
  \<open>findSubmatch p line\<close> is \<open>p.FindStringSubmatch(line)\<close> (\<open>None\<close> for \<open>nil\<close>), and
  \<open>wordMatch name line\<close> is the match of \<^verbatim>\<open>\b\<close> + \<open>QuoteMeta(name)\<close> + \<^verbatim>\<open>\b\<close> on the line.
\<close>

datatype defPattern = PyDef | PyClass | GoFunc | GoMethod | GoType | JsFunction | JsClass | JsVar

record regexEngine =
  findSubmatch :: "defPattern \<Rightarrow> string \<Rightarrow> string list option"
  wordMatch :: "string \<Rightarrow> string \<Rightarrow> bool"

text \<open>\<open>filepath.Ext\<close> lower-cased is the parameter \<open>ext\<close> of \<open>getLang\<close>.\<close>

definition getLang :: "string \<Rightarrow> string" where
  "getLang ext =
     (if ext = ''.py'' then ''python''
      else if ext = ''.go'' then ''go''
      else if ext \<in> {''.js'', ''.jsx'', ''.ts'', ''.tsx''} then ''javascript''
      else [])"

definition defPatterns :: "string \<Rightarrow> defPattern list" where
  "defPatterns lang =
     (if lang = ''python'' then [PyDef, PyClass]
      else if lang = ''go'' then [GoFunc, GoMethod, GoType]
      else if lang = ''javascript'' then [JsFunction, JsClass, JsVar]
      else [])"

text \<open>The loop over the patterns, with its \<open>break\<close> at the first hit.\<close>

fun isDefLine :: "regexEngine \<Rightarrow> defPattern list \<Rightarrow> string \<Rightarrow> string \<Rightarrow> bool" where
  "isDefLine re [] name line = False"
| "isDefLine re (p # ps) name line =
     (case findSubmatch re p line of
        Some m \<Rightarrow> if 1 < length m \<and> m ! 1 = name then True else isDefLine re ps name line
      | None \<Rightarrow> isDefLine re ps name line)"

text \<open>
  The scanner loop of \<open>searchFile\<close>: \<open>lineNum\<close> is the number of the line read last.
\<close>

fun scanLines :: "regexEngine \<Rightarrow> defPattern list \<Rightarrow> string \<Rightarrow> string \<Rightarrow> int \<Rightarrow>
                  string list \<Rightarrow> match list" where
  "scanLines re patterns path name lineNum [] = []"
| "scanLines re patterns path name lineNum (line # rest) =
     (let lineNum = lineNum + 1;
          here = \<lparr>l_File = path, l_Line = lineNum, l_Column = index line name + 1,
                   l_Text = trimSpace line\<rparr>
      in if isDefLine re patterns name line
         then \<lparr>m_loc = here, m_isDef = True\<rparr> # scanLines re patterns path name lineNum rest
         else if wordMatch re name line
         then \<lparr>m_loc = here, m_isDef = False\<rparr> # scanLines re patterns path name lineNum rest
         else scanLines re patterns path name lineNum rest)"

text \<open>
  A source file is its path, its lower-cased extension and its content: the lines the
  scanner yields, or \<open>None\<close> when \<open>os.Open\<close> fails.
\<close>

record srcFile =
  f_path :: string
  f_ext :: string
  f_lines :: "string list option"

definition searchFile :: "regexEngine \<Rightarrow> srcFile \<Rightarrow> string \<Rightarrow> match list" where
  "searchFile re f name =
     (case f_lines f of
        None \<Rightarrow> []
      | Some ls \<Rightarrow> scanLines re (defPatterns (getLang (f_ext f))) (f_path f) name 0 ls)"

text \<open>
  The loop of \<open>resolve\<close> over the matches of one file, and the loop over the channel
  \<open>results\<close>: the first defining match met is kept as the definition, every other
  match is appended to the references.
\<close>

fun gatherMatches :: "match list \<Rightarrow> Symbol \<Rightarrow> Symbol" where
  "gatherMatches [] symb = symb"
| "gatherMatches (m # ms) symb =
     gatherMatches ms
       (if m_isDef m \<and> s_Definition symb = None
        then symb\<lparr>s_Definition := Some (m_loc m)\<rparr>
        else symb\<lparr>s_References := s_References symb @ [m_loc m]\<rparr>)"

fun gatherResults :: "match list list \<Rightarrow> Symbol \<Rightarrow> Symbol" where
  "gatherResults [] symb = symb"
| "gatherResults (matches # rest) symb = gatherResults rest (gatherMatches matches symb)"

text \<open>
  \<open>resolve\<close> after its walk: \<open>files\<close> are the files the walk collected (those with a
  known language that pass the extension filter), each path once. The workers send
  one list of matches per file; \<open>order\<close> is the order in which these lists arrive on
  the channel, a permutation of the indices of \<open>files\<close>.
\<close>

definition resolve :: "regexEngine \<Rightarrow> nat list \<Rightarrow> string \<Rightarrow> srcFile list \<Rightarrow> ResolveResult" where
  "resolve re order name files =
     (let results = map (\<lambda>i. searchFile re (files ! i) name) order;
          symb = \<lparr>s_Name = name, s_Type = [], s_Definition = None, s_References = []\<rparr>;
          symb = gatherResults results symb
      in \<lparr>res_Symbols = [symb], res_TotalRefs = int (length (s_References symb)),
           res_FilesCount = int (length files), res_Error = []\<rparr>)"

lemma scanLines_locs:
  "m \<in> set (scanLines re patterns path name n ls) \<Longrightarrow>
     l_File (m_loc m) = path \<and> n < l_Line (m_loc m)"
proof (induction ls arbitrary: n)
  case Nil
  then show ?case by simp
next
  case (Cons line rest)
  from Cons.prems have
    "(l_File (m_loc m) = path \<and> l_Line (m_loc m) = n + 1) \<or>
     m \<in> set (scanLines re patterns path name (n + 1) rest)"
    by (auto simp: Let_def split: if_splits)
  then show ?case using Cons.IH [of "n + 1"] by auto
qed

lemma scanLines_distinct:
  "distinct (map m_loc (scanLines re patterns path name n ls))"
proof (induction ls arbitrary: n)
  case Nil
  show ?case by simp
next
  case (Cons line rest)
  have later: "\<And>m. m \<in> set (scanLines re patterns path name (n + 1) rest)
                  \<Longrightarrow> l_Line (m_loc m) \<noteq> n + 1"
    using scanLines_locs by fastforce
  have fresh: "\<lparr>l_File = path, l_Line = n + 1, l_Column = c, l_Text = t\<rparr>
                  \<notin> m_loc ` set (scanLines re patterns path name (n + 1) rest)" for c t
  proof
    assume "\<lparr>l_File = path, l_Line = n + 1, l_Column = c, l_Text = t\<rparr>
              \<in> m_loc ` set (scanLines re patterns path name (n + 1) rest)"
    then obtain m where m: "m \<in> set (scanLines re patterns path name (n + 1) rest)"
      and eq: "m_loc m = \<lparr>l_File = path, l_Line = n + 1, l_Column = c, l_Text = t\<rparr>"
      by auto
    from eq have "l_Line (m_loc m) = n + 1" by simp
    with later [OF m] show False by simp
  qed
  show ?case using Cons.IH [of "n + 1"] fresh by (simp add: Let_def)
qed

lemma searchFile_file:
  "m \<in> set (searchFile re f name) \<Longrightarrow> l_File (m_loc m) = f_path f"
  by (auto simp: searchFile_def dest: scanLines_locs split: option.splits)

lemma searchFile_distinct: "distinct (map m_loc (searchFile re f name))"
  by (simp add: searchFile_def scanLines_distinct split: option.splits)

lemma gatherResults_concat: "gatherResults mss symb = gatherMatches (concat mss) symb"
proof (induction mss arbitrary: symb)
  case Nil
  show ?case by simp
next
  case (Cons ms mss)
  have app: "\<And>xs ys s. gatherMatches (xs @ ys) s = gatherMatches ys (gatherMatches xs s)"
  proof -
    fix xs ys s show "gatherMatches (xs @ ys) s = gatherMatches ys (gatherMatches xs s)"
      by (induction xs arbitrary: s) simp_all
  qed
  show ?case using Cons.IH by (simp add: app)
qed

lemma gatherMatches_exclusive:
  assumes "distinct (s_References symb @ map m_loc ms)"
    and "\<And>d. s_Definition symb = Some d \<Longrightarrow> d \<notin> set (s_References symb) \<union> m_loc ` set ms"
    and "s_Definition (gatherMatches ms symb) = Some d"
  shows "d \<notin> set (s_References (gatherMatches ms symb))"
  using assms
proof (induction ms arbitrary: symb)
  case Nil
  then show ?case by simp
next
  case (Cons m ms)
  show ?case
  proof (cases "m_isDef m \<and> s_Definition symb = None")
    case True
    let ?sym = "symb\<lparr>s_Definition := Some (m_loc m)\<rparr>"
    have 1: "distinct (s_References ?sym @ map m_loc ms)" using Cons.prems(1) by simp
    have 2: "\<And>d. s_Definition ?sym = Some d \<Longrightarrow> d \<notin> set (s_References ?sym) \<union> m_loc ` set ms"
      using Cons.prems(1) by auto
    have 3: "s_Definition (gatherMatches ms ?sym) = Some d" using Cons.prems(3) True by simp
    show ?thesis using Cons.IH [OF 1 2 3] True by simp
  next
    case False
    let ?sym = "symb\<lparr>s_References := s_References symb @ [m_loc m]\<rparr>"
    have 1: "distinct (s_References ?sym @ map m_loc ms)" using Cons.prems(1) by simp
    have 2: "\<And>d. s_Definition ?sym = Some d \<Longrightarrow> d \<notin> set (s_References ?sym) \<union> m_loc ` set ms"
      using Cons.prems(2) by auto
    have 3: "s_Definition (gatherMatches ms ?sym) = Some d" using Cons.prems(3) False by auto
    show ?thesis using Cons.IH [OF 1 2 3] False by auto
  qed
qed

lemma arrivals_distinct:
  assumes "distinct (map f_path files)" and "distinct order" and "set order \<subseteq> {..<length files}"
  shows "distinct (map m_loc (concat (map (\<lambda>i. searchFile re (files ! i) name) order)))"
  using assms(2,3)
proof (induction order)
  case Nil
  show ?case by simp
next
  case (Cons i rest)
  have disj: "m_loc ` set (searchFile re (files ! i) name)
                \<inter> m_loc ` (\<Union>j\<in>set rest. set (searchFile re (files ! j) name)) = {}"
  proof (rule ccontr)
    assume "\<not> ?thesis"
    then obtain a b j where a: "a \<in> set (searchFile re (files ! i) name)"
      and j: "j \<in> set rest" and b: "b \<in> set (searchFile re (files ! j) name)"
      and eq: "m_loc a = m_loc b" by auto
    have "f_path (files ! i) = f_path (files ! j)"
      using searchFile_file [OF a] searchFile_file [OF b] eq by simp
    moreover have "i < length files" "j < length files" "i \<noteq> j"
      using Cons.prems j by auto
    ultimately show False
      using assms(1) by (simp add: distinct_conv_nth)
  qed
  show ?case using Cons disj by (simp add: searchFile_distinct image_Un image_UN)
qed

text \<open>
  C9. Whatever the order in which the per-file results arrive, the location kept as
  the definition of the symbol is not among its references.
\<close>

theorem resolve_definition_not_reference:
  assumes "distinct (map f_path files)" and "mset order = mset [0..<length files]"
    and "symb \<in> set (res_Symbols (resolve re order name files))"
    and "s_Definition symb = Some d"
  shows "d \<notin> set (s_References symb)"
proof -
  let ?all = "concat (map (\<lambda>i. searchFile re (files ! i) name) order)"
  let ?sym0 = "\<lparr>s_Name = name, s_Type = [], s_Definition = None, s_References = []\<rparr>"
  have symb: "symb = gatherMatches ?all ?sym0"
    using assms(3) by (simp add: resolve_def Let_def gatherResults_concat)
  have "distinct order"
    using assms(2) by (metis distinct_upt mset_eq_imp_distinct_iff)
  moreover have "set order \<subseteq> {..<length files}"
    using assms(2) by (metis atLeast_upt set_mset_mset subset_refl)
  ultimately have d: "distinct (map m_loc ?all)"
    using arrivals_distinct [OF assms(1)] by blast
  show ?thesis
    unfolding symb
    by (rule gatherMatches_exclusive) (use d assms(4) symb in simp_all)
qed

text \<open>
  The example of the specification: \<open>a.py\<close> holds \<open>def foo(): pass\<close> and \<open>b.py\<close>
  holds \<open>foo()\<close>. The engine below answers as Go's does on these two lines.
\<close>

definition exampleEngine :: regexEngine where
  "exampleEngine =
     \<lparr>findSubmatch = (\<lambda>p line. if p = PyDef \<and> line = ''def foo(): pass''
                                 then Some [''def foo'', ''foo''] else None),
      wordMatch = (\<lambda>name line. contains line name)\<rparr>"

definition exampleFiles :: "srcFile list" where
  "exampleFiles =
     [\<lparr>f_path = ''a.py'', f_ext = ''.py'', f_lines = Some [''def foo(): pass'']\<rparr>,
      \<lparr>f_path = ''b.py'', f_ext = ''.py'', f_lines = Some [''foo()'']\<rparr>]"

lemma resolve_example:
  "resolve exampleEngine [1, 0] ''foo'' exampleFiles =
     \<lparr>res_Symbols =
        [\<lparr>s_Name = ''foo'', s_Type = [],
          s_Definition = Some \<lparr>l_File = ''a.py'', l_Line = 1, l_Column = 5,
                                l_Text = ''def foo(): pass''\<rparr>,
          s_References = [\<lparr>l_File = ''b.py'', l_Line = 1, l_Column = 1, l_Text = ''foo()''\<rparr>]\<rparr>],
      res_TotalRefs = 1, res_FilesCount = 2, res_Error = []\<rparr>"
  by (simp add: resolve_def exampleEngine_def exampleFiles_def searchFile_def getLang_def
      defPatterns_def Let_def hasPrefix_def contains_def trimSpace_def spaceRunes_def)

theorem resolve_definition_not_reference_witness:
  "s_Definition (hd (res_Symbols (resolve exampleEngine [1, 0] ''foo'' exampleFiles)))
     = Some \<lparr>l_File = ''a.py'', l_Line = 1, l_Column = 5, l_Text = ''def foo(): pass''\<rparr> \<and>
   \<lparr>l_File = ''a.py'', l_Line = 1, l_Column = 5, l_Text = ''def foo(): pass''\<rparr>
     \<notin> set (s_References (hd (res_Symbols (resolve exampleEngine [1, 0] ''foo'' exampleFiles))))"
proof -
  let ?s = "hd (res_Symbols (resolve exampleEngine [1, 0] ''foo'' exampleFiles))"
  let ?d = "\<lparr>l_File = ''a.py'', l_Line = 1, l_Column = 5, l_Text = ''def foo(): pass''\<rparr>"
  have paths: "distinct (map f_path exampleFiles)"
    by (simp add: exampleFiles_def)
  have perm: "mset [1, 0 :: nat] = mset [0..<length exampleFiles]"
    by (simp add: exampleFiles_def upt_rec)
  have mem: "?s \<in> set (res_Symbols (resolve exampleEngine [1, 0] ''foo'' exampleFiles))"
    unfolding resolve_example by simp
  have def: "s_Definition ?s = Some ?d"
    unfolding resolve_example by simp
  from resolve_definition_not_reference [OF paths perm mem def] def
  show ?thesis by simp
qed

section \<open>TextSearcher: line search with a global result cap\<close>





























section \<open>SymbolExtractor: the per-file analysis\<close>

record ASymbol =
  sy_Name :: string
  sy_Type :: string
  sy_Line :: int
  sy_EndLine :: int
  sy_Signature :: string
  sy_DocString :: string
  sy_Parent :: string
  sy_Decorators :: "string list"

record FileAnalysis =
  fa_Path :: string
  fa_Language :: string
  fa_Symbols :: "ASymbol list"
  fa_Imports :: "string list"
  fa_LineCount :: int
  fa_Error :: string

text \<open>
  The regular expressions of the table \<open>languagePatterns\<close> are named by constructors
  (\<open>FuncPy\<close> is the \<open>Function\<close> pattern of \<open>python\<close>, and so on); the engine is the
  parameter \<open>submatch p line\<close>, standing for \<open>p.FindStringSubmatch(line)\<close>. The fields
  \<open>Method\<close>, \<open>DocString\<close> and \<open>Variable\<close> of \<open>LanguagePatterns\<close> are \<open>nil\<close> in every
  entry of the table and are never read; they are left out.
\<close>

datatype langPattern =
    FuncPy | ClassPy | ImportPy | DecoratorPy
  | FuncGo | ImportGo
  | FuncJs | ClassJs | ImportJs
  | FuncTs | ClassTs | ImportTs

record LanguagePatterns =
  lp_Function :: "langPattern option"
  lp_Class :: "langPattern option"
  lp_Import :: "langPattern option"
  lp_Decorator :: "langPattern option"

definition languagePatterns :: "string \<Rightarrow> LanguagePatterns option" where
  "languagePatterns lang =
     (if lang = ''python'' then
        Some \<lparr>lp_Function = Some FuncPy, lp_Class = Some ClassPy, lp_Import = Some ImportPy,
               lp_Decorator = Some DecoratorPy\<rparr>
      else if lang = ''go'' then
        Some \<lparr>lp_Function = Some FuncGo, lp_Class = None, lp_Import = Some ImportGo,
               lp_Decorator = None\<rparr>
      else if lang = ''javascript'' then
        Some \<lparr>lp_Function = Some FuncJs, lp_Class = Some ClassJs, lp_Import = Some ImportJs,
               lp_Decorator = None\<rparr>
      else if lang = ''typescript'' then
        Some \<lparr>lp_Function = Some FuncTs, lp_Class = Some ClassTs, lp_Import = Some ImportTs,
               lp_Decorator = None\<rparr>
      else None)"

text \<open>\<open>getLanguage\<close>, on the lower-cased extension of the path.\<close>

definition getLanguage :: "string \<Rightarrow> string" where
  "getLanguage ext =
     (if ext = ''.py'' then ''python''
      else if ext = ''.go'' then ''go''
      else if ext \<in> {''.js'', ''.jsx'', ''.mjs''} then ''javascript''
      else if ext \<in> {''.ts'', ''.tsx''} then ''typescript''
      else [])"

text \<open>
  \<open>tryMatch\<close> is the guarded match \<open>if patterns.X != nil { if matches := ...; matches != nil\<close>.
  \<open>grp matches k\<close> is \<open>matches[k]\<close>: each pattern has a fixed number of groups, so
  the index is in range in the source.
\<close>

definition tryMatch :: "(langPattern \<Rightarrow> string \<Rightarrow> string list option) \<Rightarrow> langPattern option \<Rightarrow>
                         string \<Rightarrow> string list option" where
  "tryMatch submatch p line = (case p of None \<Rightarrow> None | Some q \<Rightarrow> submatch q line)"

definition grp :: "string list \<Rightarrow> nat \<Rightarrow> string" where
  "grp matches k = (if k < length matches then matches ! k else [])"

text \<open>The variables the scanning loop of \<open>analyzeFile\<close> carries from line to line.\<close>

record scanState =
  st_lineNum :: int
  st_currentClass :: string
  st_pendingDecorators :: "string list"
  st_inMultilineImport :: bool
  st_importBuffer :: string
  st_Symbols :: "ASymbol list"
  st_Imports :: "string list"

definition newSymbol :: "string \<Rightarrow> string \<Rightarrow> int \<Rightarrow> ASymbol" where
  "newSymbol name type line =
     \<lparr>sy_Name = name, sy_Type = type, sy_Line = line, sy_EndLine = 0, sy_Signature = [],
       sy_DocString = [], sy_Parent = [], sy_Decorators = []\<rparr>"

text \<open>The branch of the loop body for a line that matches the \<open>Function\<close> pattern.\<close>

definition functionLine :: "string \<Rightarrow> string \<Rightarrow> scanState \<Rightarrow> string list \<Rightarrow> scanState" where
  "functionLine lang symbolTypeFilter st matches =
     (let (name, signature, isMethod, st) =
            (if lang = ''python'' then
               (grp matches 2, grp matches 3,
                0 < length (grp matches 1) \<and> st_currentClass st \<noteq> [], st)
             else if lang = ''go'' then
               (if grp matches 1 \<noteq> [] then
                  (grp matches 3, grp matches 4, True, st\<lparr>st_currentClass := grp matches 2\<rparr>)
                else (grp matches 3, grp matches 4, False, st))
             else
               (if grp matches 1 \<noteq> [] then (grp matches 1, [], False, st)
                else (grp matches 2, [], False, st)));
          symType = (if isMethod then ''method'' else ''function'');
          st = (if symbolTypeFilter = [] \<or> symbolTypeFilter = symType then
                  st\<lparr>st_Symbols := st_Symbols st @
                       [(newSymbol name symType (st_lineNum st))
                          \<lparr>sy_Signature := signature,
                            sy_Decorators := st_pendingDecorators st,
                            sy_Parent := (if isMethod then st_currentClass st else [])\<rparr>]\<rparr>
                else st)
      in st\<lparr>st_pendingDecorators := []\<rparr>)"

text \<open>The branch for a line that matches the \<open>Class\<close> pattern.\<close>

definition classLine :: "string \<Rightarrow> string \<Rightarrow> scanState \<Rightarrow> string list \<Rightarrow> scanState" where
  "classLine lang symbolTypeFilter st matches =
     (let indent = (if 1 < length matches then length (grp matches 1) else 0);
          className = (if lang = ''javascript'' \<or> lang = ''typescript''
                       then grp matches 1 else grp matches 2);
          st = (if indent = 0 then st\<lparr>st_currentClass := className\<rparr> else st);
          st = (if symbolTypeFilter = [] \<or> symbolTypeFilter = ''class'' then
                  st\<lparr>st_Symbols := st_Symbols st @
                       [(newSymbol className ''class'' (st_lineNum st))
                          \<lparr>sy_Decorators := st_pendingDecorators st\<rparr>]\<rparr>
                else st)
      in st\<lparr>st_pendingDecorators := []\<rparr>)"

text \<open>The branch for a line that matches the \<open>Import\<close> pattern.\<close>

definition importLine :: "string \<Rightarrow> scanState \<Rightarrow> string \<Rightarrow> string \<Rightarrow> scanState" where
  "importLine symbolTypeFilter st line trimmedLine =
     (if contains line ''('' \<and> \<not> contains line '')'' then
        st\<lparr>st_inMultilineImport := True, st_importBuffer := trimmedLine\<rparr>
      else
        let st = st\<lparr>st_Imports := st_Imports st @ [trimmedLine]\<rparr>
        in if symbolTypeFilter = [] \<or> symbolTypeFilter = ''import'' then
             st\<lparr>st_Symbols := st_Symbols st @ [newSymbol trimmedLine ''import'' (st_lineNum st)]\<rparr>
           else st)"

text \<open>The end of the loop body, reached by a line that matches no pattern.\<close>

definition plainLine :: "string \<Rightarrow> scanState \<Rightarrow> string \<Rightarrow> string \<Rightarrow> scanState" where
  "plainLine lang st line trimmedLine =
     (let st = (if st_pendingDecorators st \<noteq> [] \<and> \<not> hasPrefix trimmedLine ''@''
                then st\<lparr>st_pendingDecorators := []\<rparr> else st)
      in if lang = ''python'' \<and> st_currentClass st \<noteq> [] \<and>
            line \<noteq> [] \<and> hd line \<noteq> CHR '' '' \<and> hd line \<noteq> CHR 0x09 \<and>
            \<not> hasPrefix trimmedLine ''#''
         then st\<lparr>st_currentClass := []\<rparr> else st)"

text \<open>One turn of the loop \<open>for scanner.Scan()\<close>; each \<open>continue\<close> ends a branch.\<close>

definition analyzeLine :: "(langPattern \<Rightarrow> string \<Rightarrow> string list option) \<Rightarrow> string \<Rightarrow>
                            LanguagePatterns \<Rightarrow> string \<Rightarrow> scanState \<Rightarrow> string \<Rightarrow> scanState" where
  "analyzeLine submatch lang patterns symbolTypeFilter st0 line =
     (let st = st0\<lparr>st_lineNum := st_lineNum st0 + 1\<rparr>;
          trimmedLine = trimSpace line
      in if trimmedLine = [] then st
         else if st_inMultilineImport st then
           (let st = st\<lparr>st_importBuffer := st_importBuffer st @ '' '' @ trimmedLine\<rparr>
            in if contains trimmedLine '')'' then
                 st\<lparr>st_inMultilineImport := False,
                    st_Imports := st_Imports st @ [trimSpace (st_importBuffer st)],
                    st_importBuffer := []\<rparr>
               else st)
         else case tryMatch submatch (lp_Decorator patterns) line of
           Some matches \<Rightarrow>
             st\<lparr>st_pendingDecorators := st_pendingDecorators st @ [grp matches 2]\<rparr>
         | None \<Rightarrow>
         (case tryMatch submatch (lp_Import patterns) line of
           Some matches \<Rightarrow> importLine symbolTypeFilter st line trimmedLine
         | None \<Rightarrow>
         (case tryMatch submatch (lp_Class patterns) line of
           Some matches \<Rightarrow> classLine lang symbolTypeFilter st matches
         | None \<Rightarrow>
         (case tryMatch submatch (lp_Function patterns) line of
           Some matches \<Rightarrow> functionLine lang symbolTypeFilter st matches
         | None \<Rightarrow> plainLine lang st line trimmedLine))))"

text \<open>
  \<open>analyzeFile\<close>. A file whose \<open>os.Open\<close> fails has \<open>f_lines = None\<close>; the text of the
  operating system's error is not modelled. The test \<open>patterns == nil\<close> comes before
  the scanner is created.
\<close>

definition analyzeFile :: "(langPattern \<Rightarrow> string \<Rightarrow> string list option) \<Rightarrow> srcFile \<Rightarrow> string \<Rightarrow>
                            FileAnalysis" where
  "analyzeFile submatch f symbolTypeFilter =
     (let analysis = \<lparr>fa_Path = f_path f, fa_Language = getLanguage (f_ext f),
                       fa_Symbols = [], fa_Imports = [], fa_LineCount = 0, fa_Error = []\<rparr>
      in case f_lines f of
           None \<Rightarrow> analysis\<lparr>fa_Error := ''open failed''\<rparr>
         | Some ls \<Rightarrow>
             (case languagePatterns (fa_Language analysis) of
                None \<Rightarrow> analysis
              | Some patterns \<Rightarrow>
                  let st = foldl (analyzeLine submatch (fa_Language analysis) patterns
                                    symbolTypeFilter)
                             \<lparr>st_lineNum = 0, st_currentClass = [], st_pendingDecorators = [],
                               st_inMultilineImport = False, st_importBuffer = [],
                               st_Symbols = [], st_Imports = []\<rparr> ls
                  in analysis\<lparr>fa_Symbols := st_Symbols st, fa_Imports := st_Imports st,
                              fa_LineCount := st_lineNum st\<rparr>))"

lemma analyzeLine_lineNum:
  "st_lineNum (analyzeLine submatch lang patterns flt st line) = st_lineNum st + 1"
  by (simp add: analyzeLine_def Let_def importLine_def classLine_def functionLine_def
      plainLine_def split: option.splits prod.splits)

lemma foldl_analyzeLine_lineNum:
  "st_lineNum (foldl (analyzeLine submatch lang patterns flt) st ls)
     = st_lineNum st + int (length ls)"
  by (induction ls arbitrary: st) (simp_all add: analyzeLine_lineNum)

text \<open>For a language with a pattern table the line count is the number of lines read.\<close>

lemma analyzeFile_supported_LineCount:
  "f_lines f = Some ls \<Longrightarrow> languagePatterns (getLanguage (f_ext f)) = Some patterns \<Longrightarrow>
   fa_LineCount (analyzeFile submatch f flt) = int (length ls)"
  by (simp add: analyzeFile_def Let_def foldl_analyzeLine_lineNum)

text \<open>
  C7, as the code has it. For a file whose language has no pattern table the result
  has no symbol and no import, and its line count is 0: \<open>analyzeFile\<close> returns before
  it reads a line.
\<close>

theorem analyzeFile_unsupported:
  assumes "languagePatterns (getLanguage (f_ext f)) = None"
  shows "fa_Symbols (analyzeFile submatch f symbolTypeFilter) = [] \<and>
         fa_Imports (analyzeFile submatch f symbolTypeFilter) = [] \<and>
         fa_LineCount (analyzeFile submatch f symbolTypeFilter) = 0"
  using assms by (simp add: analyzeFile_def Let_def split: option.splits)

theorem analyzeFile_unsupported_witness:
  "fa_Symbols (analyzeFile (\<lambda>p line. None)
      \<lparr>f_path = ''notes.txt'', f_ext = ''.txt'', f_lines = Some [''one'', ''two'']\<rparr> []) = [] \<and>
   fa_Imports (analyzeFile (\<lambda>p line. None)
      \<lparr>f_path = ''notes.txt'', f_ext = ''.txt'', f_lines = Some [''one'', ''two'']\<rparr> []) = [] \<and>
   fa_LineCount (analyzeFile (\<lambda>p line. None)
      \<lparr>f_path = ''notes.txt'', f_ext = ''.txt'', f_lines = Some [''one'', ''two'']\<rparr> []) = 0"
proof -
  have unsupported: "languagePatterns (getLanguage (f_ext
      \<lparr>f_path = ''notes.txt'', f_ext = ''.txt'', f_lines = Some [''one'', ''two'']\<rparr>)) = None"
    by (simp add: getLanguage_def languagePatterns_def)
  show ?thesis by (rule analyzeFile_unsupported [OF unsupported])
qed

text \<open>
  C7 as stated fails: \<open>notes.txt\<close> has two lines and no pattern table, and its line
  count is not 2.
\<close>

theorem analyzeFile_unsupported_counterexample:
  "languagePatterns (getLanguage ''.txt'') = None \<and>
   fa_LineCount (analyzeFile (\<lambda>p line. None)
      \<lparr>f_path = ''notes.txt'', f_ext = ''.txt'', f_lines = Some [''one'', ''two'']\<rparr> [])
     \<noteq> int (length [''one'', ''two''])"
  by (simp add: analyzeFile_def getLanguage_def languagePatterns_def)

section \<open>DiffEngine: replacing a unique text in one file\<close>

text \<open>
  \<open>strings.Count(s, sub)\<close> counts the non-overlapping instances of \<open>sub\<close> in \<open>s\<close>,
  searching from the left and resuming after each instance found; for an empty \<open>sub\<close>
  it is one more than the number of characters of \<open>s\<close> (of bytes here).
  \<open>strings.Replace(s, old, new, 1)\<close> replaces the first instance.
\<close>

function strCount :: "string \<Rightarrow> string \<Rightarrow> nat" where
  "strCount s sub =
     (if sub = [] then length s + 1
      else if s = [] then 0
      else if hasPrefix s sub then 1 + strCount (drop (length sub) s) sub
      else strCount (tl s) sub)"
  by pat_completeness auto
termination
  by (relation "measure (\<lambda>(s, sub). length s)") auto

declare strCount.simps [simp del]

fun replaceFirst :: "string \<Rightarrow> string \<Rightarrow> string \<Rightarrow> string" where
  "replaceFirst [] old new = (if old = [] then new else [])"
| "replaceFirst (c # cs) old new =
     (if hasPrefix (c # cs) old then new @ drop (length old) (c # cs)
      else c # replaceFirst cs old new)"

record ApplyResult =
  ar_Success :: bool
  ar_FilePath :: string
  ar_Content :: string
  ar_Error :: string

text \<open>
  The disk: the content of each readable file, and whether a path can be written.
  \<open>os.ReadFile\<close> fails on a path without content; \<open>os.WriteFile\<close> fails on a path that
  cannot be written and then leaves the disk as it was (a write that fails half-way
  is not modelled). The texts of the operating system's errors are not modelled.
\<close>

record disk =
  d_files :: "string \<rightharpoonup> string"
  d_writable :: "string \<Rightarrow> bool"

definition writeFile :: "disk \<Rightarrow> string \<Rightarrow> string \<Rightarrow> disk option" where
  "writeFile d path content =
     (if d_writable d path then Some (d\<lparr>d_files := (d_files d)(path \<mapsto> content)\<rparr>) else None)"

definition failure :: "string \<Rightarrow> ApplyResult" where
  "failure msg = \<lparr>ar_Success = False, ar_FilePath = [], ar_Content = [], ar_Error = msg\<rparr>"

text \<open>
  \<open>applyReplace\<close> returns its result and the disk it leaves. The message of the
  ambiguity error carries the number of matches in the source; the number is left out
  of the text here.
\<close>

definition applyReplace :: "disk \<Rightarrow> string \<Rightarrow> string \<Rightarrow> string \<Rightarrow> bool \<Rightarrow> ApplyResult \<times> disk" where
  "applyReplace d path oldText newText preview =
     (case d_files d path of
        None \<Rightarrow> (failure ''read failed'', d)
      | Some s \<Rightarrow>
          if \<not> contains s oldText then (failure ''Text not found'', d)
          else if 1 < strCount s oldText then (failure ''Found several matches, need unique match'', d)
          else
            let newContent = replaceFirst s oldText newText
            in if preview then
                 (\<lparr>ar_Success = True, ar_FilePath = path, ar_Content = newContent,
                   ar_Error = []\<rparr>, d)
               else case writeFile d path newContent of
                      None \<Rightarrow> (failure ''write failed'', d)
                    | Some d' \<Rightarrow>
                        (\<lparr>ar_Success = True, ar_FilePath = path, ar_Content = [],
                          ar_Error = []\<rparr>, d'))"

text \<open>
  The positions at which a text occurs in a string, overlapping occurrences included:
  the text occurs exactly once when there is exactly one such position.
\<close>

definition occurrences :: "string \<Rightarrow> string \<Rightarrow> nat list" where
  "occurrences s sub = filter (\<lambda>i. take (length sub) (drop i s) = sub) [0..<Suc (length s)]"

lemma contains_strCount:
  "sub \<noteq> [] \<Longrightarrow> contains s sub \<longleftrightarrow> 0 < strCount s sub"
proof (induction s)
  case Nil
  then show ?case by (simp add: contains_def strCount.simps)
next
  case (Cons c cs)
  show ?case
  proof (cases "hasPrefix (c # cs) sub")
    case True
    then show ?thesis using Cons.prems by (simp add: contains_def strCount.simps [of "c # cs"])
  next
    case False
    have "contains (c # cs) sub \<longleftrightarrow> contains cs sub"
      using False by (simp add: contains_def Let_def)
    moreover have "strCount (c # cs) sub = strCount cs sub"
      using False Cons.prems by (simp add: strCount.simps [of "c # cs"])
    ultimately show ?thesis using Cons by simp
  qed
qed

text \<open>
  What the code decides: on a readable file, with a non-empty text (the command line
  refuses an empty one) and no write error, \<open>applyReplace\<close> succeeds exactly when
  \<open>strings.Count\<close> is one; and a failure leaves the disk as it was.
\<close>

lemma applyReplace_success_iff:
  assumes "d_files d path = Some s" and "oldText \<noteq> []" and "preview \<or> d_writable d path"
  shows "ar_Success (fst (applyReplace d path oldText newText preview))
           \<longleftrightarrow> strCount s oldText = 1"
  using assms contains_strCount [OF assms(2), of s]
  by (auto simp: applyReplace_def failure_def writeFile_def Let_def)

lemma applyReplace_failure_frame:
  "\<not> ar_Success (fst (applyReplace d path oldText newText preview)) \<Longrightarrow>
     snd (applyReplace d path oldText newText preview) = d \<and>
     ar_Error (fst (applyReplace d path oldText newText preview)) \<noteq> []"
  by (cases preview) (auto simp: applyReplace_def failure_def writeFile_def Let_def
      split: option.splits if_splits)

text \<open>The set of these positions; the list above enumerates it without repetition.\<close>

definition positions :: "string \<Rightarrow> string \<Rightarrow> nat set" where
  "positions s sub = {i. i \<le> length s \<and> take (length sub) (drop i s) = sub}"

lemma occurrences_positions: "set (occurrences s sub) = positions s sub"
  by (auto simp: occurrences_def positions_def less_Suc_eq_le simp del: upt_Suc)

lemma length_occurrences: "length (occurrences s sub) = card (positions s sub)"
proof -
  have "distinct (occurrences s sub)" by (simp add: occurrences_def)
  then show ?thesis by (metis distinct_card occurrences_positions)
qed

lemma finite_positions: "finite (positions s sub)"
  by (metis List.finite_set occurrences_positions)

lemma strCount_le_positions:
  "sub \<noteq> [] \<Longrightarrow> strCount s sub \<le> card (positions s sub)"
proof (induction s sub rule: strCount.induct)
  case (1 s sub)
  let ?n = "length sub"
  show ?case
  proof (cases "s = []")
    case True
    then show ?thesis using "1.prems" by (simp add: strCount.simps)
  next
    case ne: False
    show ?thesis
    proof (cases "hasPrefix s sub")
      case True
      then have pre: "take ?n s = sub" by (simp add: hasPrefix_def)
      from arg_cong [OF pre, of length] have len: "?n \<le> length s" by simp
      have IH: "strCount (drop ?n s) sub \<le> card (positions (drop ?n s) sub)"
        using "1.IH"(1) "1.prems" ne True by simp
      have sub: "insert 0 ((\<lambda>i. i + ?n) ` positions (drop ?n s) sub) \<subseteq> positions s sub"
        using pre len by (auto simp: positions_def add.commute)
      have "0 \<notin> (\<lambda>i. i + ?n) ` positions (drop ?n s) sub"
        using "1.prems" by auto
      moreover have "card ((\<lambda>i. i + ?n) ` positions (drop ?n s) sub)
                       = card (positions (drop ?n s) sub)"
        by (rule card_image) (simp add: inj_on_def)
      ultimately have "card (insert 0 ((\<lambda>i. i + ?n) ` positions (drop ?n s) sub))
                         = 1 + card (positions (drop ?n s) sub)"
        using finite_positions [of "drop ?n s" sub] by simp
      then have "1 + card (positions (drop ?n s) sub) \<le> card (positions s sub)"
        using card_mono [OF finite_positions sub] by simp
      then show ?thesis
        using IH True ne "1.prems" by (simp add: strCount.simps [of s])
    next
      case False
      have IH: "strCount (tl s) sub \<le> card (positions (tl s) sub)"
        using "1.IH"(2) "1.prems" ne False by simp
      have sub: "Suc ` positions (tl s) sub \<subseteq> positions s sub"
        using ne by (cases s) (auto simp: positions_def)
      have "card (Suc ` positions (tl s) sub) = card (positions (tl s) sub)"
        by (rule card_image) simp
      then have "card (positions (tl s) sub) \<le> card (positions s sub)"
        using card_mono [OF finite_positions sub] by simp
      then show ?thesis
        using IH False ne "1.prems" by (simp add: strCount.simps [of s])
    qed
  qed
qed

lemma contains_positions:
  "sub \<noteq> [] \<Longrightarrow> contains s sub \<longleftrightarrow> positions s sub \<noteq> {}"
proof (induction s)
  case Nil
  then show ?case by (auto simp: contains_def positions_def)
next
  case (Cons c cs)
  show ?case
  proof (cases "hasPrefix (c # cs) sub")
    case True
    then have "0 \<in> positions (c # cs) sub" by (simp add: positions_def hasPrefix_def)
    then show ?thesis using True by (auto simp: contains_def)
  next
    case False
    have "contains (c # cs) sub \<longleftrightarrow> contains cs sub"
      using False by (simp add: contains_def Let_def)
    moreover have "positions (c # cs) sub = Suc ` positions cs sub"
    proof (rule set_eqI)
      fix i
      show "i \<in> positions (c # cs) sub \<longleftrightarrow> i \<in> Suc ` positions cs sub"
        using False by (cases i) (auto simp: positions_def hasPrefix_def)
    qed
    ultimately show ?thesis using Cons by simp
  qed
qed

text \<open>
  The check of the code agrees with the occurrences of the text whenever there is no
  occurrence, exactly one, or at least two that do not overlap.
\<close>

lemma applyReplace_unique_succeeds:
  assumes "d_files d path = Some s" and "oldText \<noteq> []" and "preview \<or> d_writable d path"
    and "length (occurrences s oldText) = 1"
  shows "ar_Success (fst (applyReplace d path oldText newText preview))"
proof -
  have "card (positions s oldText) = 1" using assms(4) by (simp add: length_occurrences)
  then have "positions s oldText \<noteq> {}" by auto
  then have "0 < strCount s oldText"
    using contains_positions [OF assms(2)] contains_strCount [OF assms(2)] by simp
  moreover have "strCount s oldText \<le> 1"
    using strCount_le_positions [OF assms(2), of s] \<open>card (positions s oldText) = 1\<close> by simp
  ultimately have "strCount s oldText = 1" by simp
  then show ?thesis using applyReplace_success_iff [OF assms(1-3)] by simp
qed

lemma applyReplace_absent_fails:
  assumes "occurrences s oldText = []" and "d_files d path = Some s" and "oldText \<noteq> []"
  shows "\<not> ar_Success (fst (applyReplace d path oldText newText preview))"
proof -
  have "positions s oldText = {}" using assms(1) occurrences_positions by (metis set_empty)
  then have "\<not> contains s oldText" using contains_positions [OF assms(3)] by simp
  then show ?thesis using assms(2) by (simp add: applyReplace_def failure_def)
qed

text \<open>
  C2 at a concrete file. In \<open>aaa\<close> the text \<open>aa\<close> occurs twice, at offsets 0 and 1.
  \<open>strings.Count\<close> resumes its search after the first instance and reports one, so
  neither mode fails: the preview returns \<open>ba\<close> and the apply mode writes it.
\<close>

theorem applyReplace_overlapping:
  "occurrences ''aaa'' ''aa'' = [0, 1] \<and>
   applyReplace \<lparr>d_files = [''f.txt'' \<mapsto> ''aaa''], d_writable = (\<lambda>p. True)\<rparr>
       ''f.txt'' ''aa'' ''b'' True
     = (\<lparr>ar_Success = True, ar_FilePath = ''f.txt'', ar_Content = ''ba'', ar_Error = []\<rparr>,
        \<lparr>d_files = [''f.txt'' \<mapsto> ''aaa''], d_writable = (\<lambda>p. True)\<rparr>) \<and>
   applyReplace \<lparr>d_files = [''f.txt'' \<mapsto> ''aaa''], d_writable = (\<lambda>p. True)\<rparr>
       ''f.txt'' ''aa'' ''b'' False
     = (\<lparr>ar_Success = True, ar_FilePath = ''f.txt'', ar_Content = [], ar_Error = []\<rparr>,
        \<lparr>d_files = [''f.txt'' \<mapsto> ''ba''], d_writable = (\<lambda>p. True)\<rparr>)"
  by (simp add: occurrences_def upt_rec applyReplace_def contains_def hasPrefix_def strCount.simps
      writeFile_def Let_def)

section \<open>DiffEngine: the two-file line diff\<close>

record DiffHunk =
  h_OldStart :: int
  h_OldCount :: int
  h_NewStart :: int
  h_NewCount :: int
  h_Lines :: "string list"

text \<open>
  The indices \<open>i\<close> and \<open>j\<close> of \<open>computeDiff\<close> only grow from 0 and are natural
  numbers here (an index into a slice stays below \<open>2^63\<close>, and so does its
  difference to any number between 0 and \<open>2^63 - 1\<close>); \<open>ctx\<close> is the \<open>int\<close> given on
  the command line, and the operations on it that can overflow are \<open>ctx*2\<close>,
  \<open>i-ctx\<close> and \<open>start + 1\<close>, which wrap around (\<open>wrap64\<close>). Each loop of the
  source is one function below.

  The loop that skips a run of identical lines:
  \<^verbatim>\<open>for i < len(old) && j < len(new) && old[i] == new[j] { i++; j++ }\<close>
\<close>

function skipEqual :: "string list \<Rightarrow> string list \<Rightarrow> nat \<Rightarrow> nat \<Rightarrow> nat \<times> nat" where
  "skipEqual old new i j =
     (if i < length old \<and> j < length new \<and> old ! i = new ! j
      then skipEqual old new (i + 1) (j + 1)
      else (i, j))"
  by pat_completeness auto
termination
  by (relation "measure (\<lambda>(old, new, i, j). length old - i)") auto

declare skipEqual.simps [simp del]

text \<open>
  The loop that measures how far the two sequences agree from \<open>(i, j)\<close>:
  \<^verbatim>\<open>for k := 0; i+k < len(old) && j+k < len(new) && old[i+k] == new[j+k]; k++ { match++ }\<close>
\<close>

function countMatch :: "string list \<Rightarrow> string list \<Rightarrow> nat \<Rightarrow> nat \<Rightarrow> nat \<Rightarrow> nat \<Rightarrow> nat" where
  "countMatch old new i j k match =
     (if i + k < length old \<and> j + k < length new \<and> old ! (i + k) = new ! (j + k)
      then countMatch old new i j (k + 1) (match + 1)
      else match)"
  by pat_completeness auto
termination
  by (relation "measure (\<lambda>(old, new, i, j, k, match). length old - (i + k))") auto

declare countMatch.simps [simp del]

text \<open>
  The loop that closes a hunk with its trailing context:
  \<^verbatim>\<open>for k := 0; k < ctx && i < len(old); k++ { lines = append(lines, " "+old[i]); i++; j++ }\<close>
\<close>

function trailingContext :: "string list \<Rightarrow> int \<Rightarrow> nat \<Rightarrow> nat \<Rightarrow> nat \<Rightarrow> string list \<Rightarrow>
                             nat \<times> nat \<times> string list" where
  "trailingContext old ctx k i j lines =
     (if int k < ctx \<and> i < length old
      then trailingContext old ctx (k + 1) (i + 1) (j + 1) (lines @ [CHR '' '' # old ! i])
      else (i, j, lines))"
  by pat_completeness auto
termination
  by (relation "measure (\<lambda>(old, new, k, i, j, lines). length old - i)") auto

declare trailingContext.simps [simp del]

text \<open>
  The inner loop \<open>for i < len(old) || j < len(new)\<close> that fills one hunk. The last
  \<open>else\<close> is never reached: the loop condition gives \<open>i < len(old)\<close> or
  \<open>j < len(new)\<close>.
\<close>

function hunkBody :: "string list \<Rightarrow> string list \<Rightarrow> int \<Rightarrow> nat \<Rightarrow> nat \<Rightarrow> string list \<Rightarrow>
                      nat \<times> nat \<times> string list" where
  "hunkBody old new ctx i j lines =
     (if i < length old \<or> j < length new then
        if i < length old \<and> j < length new \<and> old ! i = new ! j then
          if wrap64 (ctx * 2) < int (countMatch old new i j 0 0)
          then trailingContext old ctx 0 i j lines
          else hunkBody old new ctx (i + 1) (j + 1) (lines @ [CHR '' '' # old ! i])
        else if i < length old then
          hunkBody old new ctx (i + 1) j (lines @ [CHR ''-'' # old ! i])
        else if j < length new then
          hunkBody old new ctx i (j + 1) (lines @ [CHR ''+'' # new ! j])
        else (i, j, lines)
      else (i, j, lines))"
  by pat_completeness auto
termination
  by (relation "measure (\<lambda>(old, new, ctx, i, j, lines). (length old - i) + (length new - j))")
    auto

declare hunkBody.simps [simp del]

text \<open>
  The context before a hunk:
  \<^verbatim>\<open>for k := start; k < i; k++ { lines = append(lines, " "+old[k]) }\<close>
  with \<open>start = max(0, i-ctx)\<close>, which is never negative.
\<close>

definition leadingContext :: "string list \<Rightarrow> int \<Rightarrow> nat \<Rightarrow> string list" where
  "leadingContext old start i = map (\<lambda>k. CHR '' '' # old ! k) [nat start..<i]"


lemma skipEqual_step:
  "i < length old \<Longrightarrow> j < length new \<Longrightarrow> old ! i = new ! j \<Longrightarrow>
     skipEqual old new i j = skipEqual old new (i + 1) (j + 1)"
  by (subst skipEqual.simps) simp

lemma skipEqual_done:
  "\<not> (i < length old \<and> j < length new \<and> old ! i = new ! j) \<Longrightarrow>
     skipEqual old new i j = (i, j)"
  by (subst skipEqual.simps) auto

lemma countMatch_step:
  "i + k < length old \<Longrightarrow> j + k < length new \<Longrightarrow> old ! (i + k) = new ! (j + k) \<Longrightarrow>
     countMatch old new i j k match = countMatch old new i j (k + 1) (match + 1)"
  by (subst countMatch.simps) simp

lemma countMatch_done:
  "\<not> (i + k < length old \<and> j + k < length new \<and> old ! (i + k) = new ! (j + k)) \<Longrightarrow>
     countMatch old new i j k match = match"
  by (subst countMatch.simps) auto

lemma trailingContext_step:
  "int k < ctx \<Longrightarrow> i < length old \<Longrightarrow>
     trailingContext old ctx k i j lines =
       trailingContext old ctx (k + 1) (i + 1) (j + 1) (lines @ [CHR '' '' # old ! i])"
  by (subst trailingContext.simps) simp

lemma trailingContext_done:
  "\<not> (int k < ctx \<and> i < length old) \<Longrightarrow> trailingContext old ctx k i j lines = (i, j, lines)"
  by (subst trailingContext.simps) auto

lemma hunkBody_done:
  "\<not> (i < length old \<or> j < length new) \<Longrightarrow> hunkBody old new ctx i j lines = (i, j, lines)"
  by (subst hunkBody.simps) auto

lemma hunkBody_close:
  "i < length old \<Longrightarrow> j < length new \<Longrightarrow> old ! i = new ! j \<Longrightarrow>
   wrap64 (ctx * 2) < int (countMatch old new i j 0 0) \<Longrightarrow>
     hunkBody old new ctx i j lines = trailingContext old ctx 0 i j lines"
  by (subst hunkBody.simps) simp

lemma hunkBody_keep:
  "i < length old \<Longrightarrow> j < length new \<Longrightarrow> old ! i = new ! j \<Longrightarrow>
   \<not> wrap64 (ctx * 2) < int (countMatch old new i j 0 0) \<Longrightarrow>
     hunkBody old new ctx i j lines =
       hunkBody old new ctx (i + 1) (j + 1) (lines @ [CHR '' '' # old ! i])"
  by (subst hunkBody.simps) simp

lemma hunkBody_remove:
  "\<not> (i < length old \<and> j < length new \<and> old ! i = new ! j) \<Longrightarrow> i < length old \<Longrightarrow>
     hunkBody old new ctx i j lines =
       hunkBody old new ctx (i + 1) j (lines @ [CHR ''-'' # old ! i])"
  by (subst hunkBody.simps) auto

lemma hunkBody_add:
  "\<not> i < length old \<Longrightarrow> j < length new \<Longrightarrow>
     hunkBody old new ctx i j lines =
       hunkBody old new ctx i (j + 1) (lines @ [CHR ''+'' # new ! j])"
  by (subst hunkBody.simps) auto

lemma skipEqual_mono:
  "skipEqual old new i j = (i1, j1) \<Longrightarrow> i \<le> i1 \<and> j \<le> j1"
proof (induction old new i j rule: skipEqual.induct)
  case (1 old new i j)
  show ?case
  proof (cases "i < length old \<and> j < length new \<and> old ! i = new ! j")
    case True
    then have "skipEqual old new (i + 1) (j + 1) = (i1, j1)"
      using "1.prems" by (simp add: skipEqual_step)
    from "1.IH" [OF True this] show ?thesis by simp
  next
    case False
    then show ?thesis using "1.prems" by (simp add: skipEqual_done)
  qed
qed

lemma skipEqual_stop:
  "skipEqual old new i j = (i1, j1) \<Longrightarrow>
     \<not> (i1 < length old \<and> j1 < length new \<and> old ! i1 = new ! j1)"
proof (induction old new i j rule: skipEqual.induct)
  case (1 old new i j)
  show ?case
  proof (cases "i < length old \<and> j < length new \<and> old ! i = new ! j")
    case True
    then have "skipEqual old new (i + 1) (j + 1) = (i1, j1)"
      using "1.prems" by (simp add: skipEqual_step)
    from "1.IH" [OF True this] show ?thesis .
  next
    case False
    then have "i1 = i" "j1 = j" using "1.prems" by (simp_all add: skipEqual_done)
    then show ?thesis using False by simp
  qed
qed

lemma trailingContext_mono:
  "trailingContext old ctx k i j lines = (i2, j2, lines2) \<Longrightarrow> i \<le> i2 \<and> j \<le> j2"
proof (induction old ctx k i j lines rule: trailingContext.induct)
  case (1 old ctx k i j lines)
  show ?case
  proof (cases "int k < ctx \<and> i < length old")
    case True
    then have "trailingContext old ctx (k + 1) (i + 1) (j + 1) (lines @ [CHR '' '' # old ! i])
                 = (i2, j2, lines2)"
      using "1.prems" by (simp add: trailingContext_step)
    from "1.IH" [OF True this] show ?thesis by simp
  next
    case False
    then show ?thesis using "1.prems" by (simp add: trailingContext_done)
  qed
qed

lemma hunkBody_mono:
  "hunkBody old new ctx i j lines = (i2, j2, lines2) \<Longrightarrow> i \<le> i2 \<and> j \<le> j2"
proof (induction old new ctx i j lines rule: hunkBody.induct)
  case (1 old new ctx i j lines)
  show ?case
  proof (cases "i < length old \<or> j < length new")
    case False
    then show ?thesis using "1.prems" by (simp add: hunkBody_done)
  next
    case more: True
    show ?thesis
    proof (cases "i < length old \<and> j < length new \<and> old ! i = new ! j")
      case same: True
      show ?thesis
      proof (cases "wrap64 (ctx * 2) < int (countMatch old new i j 0 0)")
        case True
        then have "trailingContext old ctx 0 i j lines = (i2, j2, lines2)"
          using "1.prems" same by (simp add: hunkBody_close)
        then show ?thesis by (rule trailingContext_mono)
      next
        case False
        then have "hunkBody old new ctx (i + 1) (j + 1) (lines @ [CHR '' '' # old ! i])
                     = (i2, j2, lines2)"
          using "1.prems" same by (simp add: hunkBody_keep)
        from "1.IH"(1) [OF more same False this] show ?thesis by simp
      qed
    next
      case differ: False
      show ?thesis
      proof (cases "i < length old")
        case True
        have "hunkBody old new ctx (i + 1) j (lines @ [CHR ''-'' # old ! i])
                     = (i2, j2, lines2)"
          using "1.prems" hunkBody_remove [OF differ True] by simp
        from "1.IH"(2) [OF more differ True this] show ?thesis by simp
      next
        case False
        then have j: "j < length new" using more by simp
        have "hunkBody old new ctx i (j + 1) (lines @ [CHR ''+'' # new ! j])
                     = (i2, j2, lines2)"
          using "1.prems" hunkBody_add [OF False j] by simp
        from "1.IH"(3) [OF more differ False j this] show ?thesis by simp
      qed
    qed
  qed
qed

lemma hunkBody_progress:
  assumes "i < length old \<or> j < length new"
    and "\<not> (i < length old \<and> j < length new \<and> old ! i = new ! j)"
    and "hunkBody old new ctx i j lines = (i2, j2, lines2)"
  shows "(length old - i2) + (length new - j2) < (length old - i) + (length new - j)"
proof (cases "i < length old")
  case True
  have "hunkBody old new ctx (i + 1) j (lines @ [CHR ''-'' # old ! i]) = (i2, j2, lines2)"
    using assms(3) hunkBody_remove [OF assms(2) True] by simp
  from hunkBody_mono [OF this] True show ?thesis by linarith
next
  case False
  then have j: "j < length new" using assms(1) by simp
  have "hunkBody old new ctx i (j + 1) (lines @ [CHR ''+'' # new ! j]) = (i2, j2, lines2)"
    using assms(3) hunkBody_add [OF False j] by simp
  from hunkBody_mono [OF this] j False show ?thesis by linarith
qed

text \<open>
  The outer loop of \<open>computeDiff\<close>. The new-side fields of a hunk are computed from
  \<open>start\<close>, an index into the old sequence, as in the source.
\<close>

function diffLoop :: "string list \<Rightarrow> string list \<Rightarrow> int \<Rightarrow> nat \<Rightarrow> nat \<Rightarrow> DiffHunk list \<Rightarrow>
                      DiffHunk list" where
  "diffLoop old new ctx i j hunks =
     (if i < length old \<or> j < length new then
        let (i1, j1) = skipEqual old new i j
        in if length old \<le> i1 \<and> length new \<le> j1 then hunks
           else
             let start = max 0 (wrap64 (int i1 - ctx));
                 lines0 = leadingContext old start i1;
                 (i2, j2, lines) = hunkBody old new ctx i1 j1 lines0;
                 hunks' = (if 0 < length lines
                           then hunks @ [\<lparr>h_OldStart = wrap64 (start + 1),
                                           h_OldCount = int i2 - start,
                                           h_NewStart = wrap64 (start + 1),
                                           h_NewCount = int j2 - start,
                                           h_Lines = lines\<rparr>]
                           else hunks)
             in diffLoop old new ctx i2 j2 hunks'
      else hunks)"
  by pat_completeness auto
termination
proof (relation "measure (\<lambda>(old, new, ctx, i, j, hunks). (length old - i) + (length new - j))",
    goal_cases)
  case 1
  show ?case by simp
next
  case (2 old new ctx i j hunks x i1 j1 start lines0 y i2 z j2 lines hunks')
  have sk: "skipEqual old new i j = (i1, j1)" using 2 by simp
  have hb: "hunkBody old new ctx i1 j1 lines0 = (i2, j2, lines)" using 2 by simp
  have more: "i1 < length old \<or> j1 < length new" using 2 by auto
  from hunkBody_progress [OF more skipEqual_stop [OF sk] hb] skipEqual_mono [OF sk]
  have "(length old - i2) + (length new - j2) < (length old - i) + (length new - j)"
    by linarith
  then show ?case by simp
qed

declare diffLoop.simps [simp del]

definition computeDiff :: "string list \<Rightarrow> string list \<Rightarrow> int \<Rightarrow> DiffHunk list" where
  "computeDiff old new ctx = diffLoop old new ctx 0 0 []"


subsection \<open>Tagged lines, and applying a patch\<close>

text \<open>
  A line of a hunk is its tag (space for context, \<open>-\<close> for removed, \<open>+\<close> for added)
  followed by the text. The old-tagged lines are the context and removed ones, the
  new-tagged lines the context and added ones.
\<close>

definition isOldLine :: "string \<Rightarrow> bool" where
  "isOldLine l = (l \<noteq> [] \<and> (hd l = CHR '' '' \<or> hd l = CHR ''-''))"

definition isNewLine :: "string \<Rightarrow> bool" where
  "isNewLine l = (l \<noteq> [] \<and> (hd l = CHR '' '' \<or> hd l = CHR ''+''))"

definition oldTagged :: "string list \<Rightarrow> nat" where
  "oldTagged ls = length (filter isOldLine ls)"

definition newTagged :: "string list \<Rightarrow> nat" where
  "newTagged ls = length (filter isNewLine ls)"

text \<open>
  Applying the lines of one hunk to the old lines that remain: a context line and a
  removed line must be the next old line; the result is the new lines produced and
  the old lines left.
\<close>

fun applyLines :: "string list \<Rightarrow> string list \<Rightarrow> (string list \<times> string list) option" where
  "applyLines [] rest = Some ([], rest)"
| "applyLines (l # ls) rest =
     (if isOldLine l then
        (case rest of
           [] \<Rightarrow> None
         | r # rest' \<Rightarrow>
             if r \<noteq> tl l then None
             else (case applyLines ls rest' of
                     None \<Rightarrow> None
                   | Some (out, remaining) \<Rightarrow>
                       Some (if isNewLine l then tl l # out else out, remaining)))
      else if isNewLine l then
        (case applyLines ls rest of
           None \<Rightarrow> None
         | Some (out, remaining) \<Rightarrow> Some (tl l # out, remaining))
      else None)"

text \<open>
  Applying hunks in order: \<open>pos\<close> old lines are already consumed and \<open>rest\<close> are
  the old lines from there. A hunk applies at the old line \<open>OldStart\<close>, with all the
  lines it holds; the old lines before it are copied.
\<close>

fun applyHunks :: "DiffHunk list \<Rightarrow> nat \<Rightarrow> string list \<Rightarrow> string list option" where
  "applyHunks [] pos rest = Some rest"
| "applyHunks (h # hs) pos rest =
     (if h_OldStart h - 1 < int pos \<or> int pos + int (length rest) < h_OldStart h - 1 then None
      else
        let n = nat (h_OldStart h - 1) - pos
        in case applyLines (h_Lines h) (drop n rest) of
             None \<Rightarrow> None
           | Some (out, remaining) \<Rightarrow>
               (case applyHunks hs (pos + (length rest - length remaining)) remaining of
                  None \<Rightarrow> None
                | Some after \<Rightarrow> Some (take n rest @ out @ after)))"

text \<open>
  The repository writes patches and has no code that applies one. What applying a
  patch means is given by the unified format that \<open>generatePatch\<close> writes: for each
  hunk the line \<^verbatim>\<open>@@ -OldStart,OldCount +NewStart,NewCount @@\<close>, with the four numbers of
  the hunk unchanged, followed by the lines of the hunk. The two counts tell a reader
  of the patch where the hunk ends: it takes lines until it has seen \<open>OldCount\<close>
  old-tagged and \<open>NewCount\<close> new-tagged lines. A line for a side whose count is used
  up while the other side is not complete makes the patch malformed, and so does the
  end of the lines before both counts are reached. Lines that follow a complete hunk
  are not part of it. This is how \<open>patch(1)\<close> reads a hunk.
\<close>

fun hunkExtent :: "int \<Rightarrow> int \<Rightarrow> string list \<Rightarrow> string list option" where
  "hunkExtent oldLeft newLeft [] = (if oldLeft \<le> 0 \<and> newLeft \<le> 0 then Some [] else None)"
| "hunkExtent oldLeft newLeft (l # ls) =
     (if oldLeft \<le> 0 \<and> newLeft \<le> 0 then Some []
      else if isOldLine l \<and> isNewLine l then
        (if 0 < oldLeft \<and> 0 < newLeft
         then map_option ((#) l) (hunkExtent (oldLeft - 1) (newLeft - 1) ls) else None)
      else if isOldLine l then
        (if 0 < oldLeft then map_option ((#) l) (hunkExtent (oldLeft - 1) newLeft ls) else None)
      else if isNewLine l then
        (if 0 < newLeft then map_option ((#) l) (hunkExtent oldLeft (newLeft - 1) ls) else None)
      else None)"

definition readHunk :: "DiffHunk \<Rightarrow> DiffHunk option" where
  "readHunk h =
     map_option (\<lambda>ls. h\<lparr>h_Lines := ls\<rparr>) (hunkExtent (h_OldCount h) (h_NewCount h) (h_Lines h))"

text \<open>
  Applying a patch to a file: every hunk is read as its header delimits it, and the
  hunks are applied in order, starting in front of the first line of the file. The
  new start of a header does not take part: a hunk is placed by its old side.
\<close>

definition applyPatch :: "DiffHunk list \<Rightarrow> string list \<Rightarrow> string list option" where
  "applyPatch hunks old =
     (case those (map readHunk hunks) of
        None \<Rightarrow> None
      | Some hs \<Rightarrow> applyHunks hs 0 old)"

subsection \<open>The edit script of a hunk\<close>

definition oldSide :: "string list \<Rightarrow> string list" where
  "oldSide ls = map tl (filter isOldLine ls)"

definition newSide :: "string list \<Rightarrow> string list" where
  "newSide ls = map tl (filter isNewLine ls)"

definition tagged :: "string \<Rightarrow> bool" where
  "tagged l \<longleftrightarrow> isOldLine l \<or> isNewLine l"

lemma sides_append [simp]:
  "oldSide (xs @ ys) = oldSide xs @ oldSide ys"
  "newSide (xs @ ys) = newSide xs @ newSide ys"
  by (simp_all add: oldSide_def newSide_def)

lemma sides_Nil [simp]: "oldSide [] = []" "newSide [] = []"
  by (simp_all add: oldSide_def newSide_def)

lemma sides_context [simp]:
  "oldSide ((CHR '' '' # t) # ls) = t # oldSide ls"
  "newSide ((CHR '' '' # t) # ls) = t # newSide ls"
  "tagged (CHR '' '' # t)"
  by (simp_all add: oldSide_def newSide_def tagged_def isOldLine_def isNewLine_def)

lemma sides_removed [simp]:
  "oldSide ((CHR ''-'' # t) # ls) = t # oldSide ls"
  "newSide ((CHR ''-'' # t) # ls) = newSide ls"
  "tagged (CHR ''-'' # t)"
  by (simp_all add: oldSide_def newSide_def tagged_def isOldLine_def isNewLine_def)

lemma sides_added [simp]:
  "oldSide ((CHR ''+'' # t) # ls) = oldSide ls"
  "newSide ((CHR ''+'' # t) # ls) = t # newSide ls"
  "tagged (CHR ''+'' # t)"
  by (simp_all add: oldSide_def newSide_def tagged_def isOldLine_def isNewLine_def)

lemma sides_context_map [simp]:
  "oldSide (map ((#) CHR '' '') ts) = ts" "newSide (map ((#) CHR '' '') ts) = ts"
  "list_all tagged (map ((#) CHR '' '') ts)"
  by (induction ts) simp_all

lemma applyLines_sides:
  "list_all tagged ls \<Longrightarrow> applyLines ls (oldSide ls @ remaining) = Some (newSide ls, remaining)"
proof (induction ls)
  case Nil
  show ?case by simp
next
  case (Cons l ls)
  then have IH: "applyLines ls (oldSide ls @ remaining) = Some (newSide ls, remaining)"
    and l: "isOldLine l \<or> isNewLine l"
    by (simp_all add: tagged_def)
  show ?case
  proof (cases "isOldLine l")
    case True
    then show ?thesis using IH by (simp add: oldSide_def newSide_def)
  next
    case False
    then show ?thesis using IH l by (simp add: oldSide_def newSide_def)
  qed
qed

lemma oldTagged_oldSide: "oldTagged ls = length (oldSide ls)"
  by (simp add: oldTagged_def oldSide_def)

lemma newTagged_newSide: "newTagged ls = length (newSide ls)"
  by (simp add: newTagged_def newSide_def)

subsection \<open>What each loop computes\<close>

lemma countMatch_ge: "match \<le> countMatch old new i j k match"
proof (induction old new i j k match rule: countMatch.induct)
  case (1 old new i j k match)
  show ?case
  proof (cases "i + k < length old \<and> j + k < length new \<and> old ! (i + k) = new ! (j + k)")
    case True
    then show ?thesis using "1.IH" by (simp add: countMatch_step)
  next
    case False
    then show ?thesis by (simp add: countMatch_done)
  qed
qed

lemma countMatch_run:
  "k \<le> d \<Longrightarrow> d < k + (countMatch old new i j k match - match) \<Longrightarrow>
     i + d < length old \<and> j + d < length new \<and> old ! (i + d) = new ! (j + d)"
proof (induction old new i j k match rule: countMatch.induct)
  case (1 old new i j k match)
  show ?case
  proof (cases "i + k < length old \<and> j + k < length new \<and> old ! (i + k) = new ! (j + k)")
    case True
    have eq: "countMatch old new i j k match = countMatch old new i j (k + 1) (match + 1)"
      using True by (simp add: countMatch_step)
    show ?thesis
    proof (cases "d = k")
      case True
      then show ?thesis using \<open>i + k < length old \<and> _\<close> by simp
    next
      case False
      then have "k + 1 \<le> d" using "1.prems"(1) by simp
      moreover have "d < k + 1 + (countMatch old new i j (k + 1) (match + 1) - (match + 1))"
        using "1.prems"(2) eq countMatch_ge [of "match + 1" old new i j "k + 1"] by simp
      ultimately show ?thesis using "1.IH" [OF True] by blast
    qed
  next
    case False
    then have "countMatch old new i j k match = match" by (simp add: countMatch_done)
    then show ?thesis using "1.prems" by simp
  qed
qed

lemma trailingContext_spec:
  "trailingContext old ctx k i j lines =
     (i + min (nat ctx - k) (length old - i), j + min (nat ctx - k) (length old - i),
      lines @ map ((#) CHR '' '') (take (min (nat ctx - k) (length old - i)) (drop i old)))"
proof (induction old ctx k i j lines rule: trailingContext.induct)
  case (1 old ctx k i j lines)
  show ?case
  proof (cases "int k < ctx \<and> i < length old")
    case True
    have "k < nat ctx" using True by linarith
    then have m: "min (nat ctx - k) (length old - i)
                    = Suc (min (nat ctx - (k + 1)) (length old - (i + 1)))"
      using True by (simp add: min_def) linarith
    have "drop i old = old ! i # drop (Suc i) old"
      using True by (simp add: Cons_nth_drop_Suc)
    then show ?thesis
      using True "1.IH" [OF True] by (simp add: trailingContext_step m)
  next
    case False
    then have "min (nat ctx - k) (length old - i) = 0" by auto
    then show ?thesis using False by (simp add: trailingContext_done)
  qed
qed

lemma skipEqual_spec:
  "skipEqual old new i j = (i1, j1) \<Longrightarrow>
     \<exists>n. i1 = i + n \<and> j1 = j + n \<and>
         (\<forall>d<n. i + d < length old \<and> j + d < length new \<and> old ! (i + d) = new ! (j + d))"
proof (induction old new i j rule: skipEqual.induct)
  case (1 old new i j)
  show ?case
  proof (cases "i < length old \<and> j < length new \<and> old ! i = new ! j")
    case True
    then have "skipEqual old new (i + 1) (j + 1) = (i1, j1)"
      using "1.prems" by (simp add: skipEqual_step)
    from "1.IH" [OF True this] obtain n where n: "i1 = i + 1 + n" "j1 = j + 1 + n"
      "\<forall>d<n. i + 1 + d < length old \<and> j + 1 + d < length new \<and>
              old ! (i + 1 + d) = new ! (j + 1 + d)"
      by blast
    have "\<forall>d<Suc n. i + d < length old \<and> j + d < length new \<and> old ! (i + d) = new ! (j + d)"
    proof (intro allI impI)
      fix d assume "d < Suc n"
      show "i + d < length old \<and> j + d < length new \<and> old ! (i + d) = new ! (j + d)"
      proof (cases d)
        case 0
        then show ?thesis using True by simp
      next
        case (Suc e)
        then have "e < n" using \<open>d < Suc n\<close> by simp
        then show ?thesis using n(3) Suc by simp
      qed
    qed
    then show ?thesis using n(1,2) by (intro exI [of _ "Suc n"]) simp
  next
    case False
    then have "i1 = i" "j1 = j" using "1.prems" by (simp_all add: skipEqual_done)
    then show ?thesis by simp
  qed
qed


lemma run_slices:
  assumes "\<forall>d<m. i + d < length old \<and> j + d < length new \<and> old ! (i + d) = new ! (j + d)"
  shows "take m (drop i old) = take m (drop j new)"
proof (rule nth_equalityI)
  show "length (take m (drop i old)) = length (take m (drop j new))"
  proof (cases m)
    case 0
    then show ?thesis by simp
  next
    case (Suc m')
    then have "i + m' < length old" "j + m' < length new" using assms by simp_all
    then have "m \<le> length old - i" "m \<le> length new - j" using Suc by linarith+
    then show ?thesis by (simp add: min_absorb1)
  qed
next
  fix d assume "d < length (take m (drop i old))"
  then have d: "d < m" by simp
  then have "i + d < length old" "j + d < length new" "old ! (i + d) = new ! (j + d)"
    using assms by simp_all
  then have "drop i old ! d = drop j new ! d" by (simp add: nth_drop)
  then show "take m (drop i old) ! d = take m (drop j new) ! d"
    using d by simp
qed

lemma slice_step:
  "i < i2 \<Longrightarrow> i < length xs \<Longrightarrow>
     xs ! i # take (i2 - (i + 1)) (drop (i + 1) xs) = take (i2 - i) (drop i xs)"
proof -
  assume a: "i < i2" "i < length xs"
  then obtain n where n: "i2 - i = Suc n" by (cases "i2 - i") auto
  then have "i2 - (i + 1) = n" by simp
  moreover have "drop i xs = xs ! i # drop (Suc i) xs"
    using a(2) by (simp add: Cons_nth_drop_Suc)
  ultimately show ?thesis using n by simp
qed

text \<open>
  The lines one call of \<open>hunkBody\<close> appends are an edit script from the old lines it
  passes to the new lines it passes.
\<close>

lemma hunkBody_spec:
  assumes "i \<le> length old" and "j \<le> length new"
    and "hunkBody old new ctx i j lines = (i2, j2, lines2)"
    and "wrap64 (ctx * 2) = ctx * 2"
  shows "\<exists>ext. lines2 = lines @ ext \<and> list_all tagged ext \<and>
               oldSide ext = take (i2 - i) (drop i old) \<and>
               newSide ext = take (j2 - j) (drop j new) \<and>
               i2 \<le> length old \<and> j2 \<le> length new"
  using assms
proof (induction old new ctx i j lines rule: hunkBody.induct)
  case (1 old new ctx i j lines)
  show ?case
  proof (cases "i < length old \<or> j < length new")
    case False
    then have "i2 = i" "j2 = j" "lines2 = lines"
      using "1.prems"(3) by (simp_all add: hunkBody_done)
    then show ?thesis using "1.prems"(1,2) by simp
  next
    case more: True
    show ?thesis
    proof (cases "i < length old \<and> j < length new \<and> old ! i = new ! j")
      case same: True
      show ?thesis
      proof (cases "wrap64 (ctx * 2) < int (countMatch old new i j 0 0)")
        case True
        let ?m = "min (nat ctx) (length old - i)"
        have res: "i2 = i + ?m" "j2 = j + ?m"
          "lines2 = lines @ map ((#) CHR '' '') (take ?m (drop i old))"
          using "1.prems"(3) same True
          by (simp_all add: hunkBody_close trailingContext_spec)
        have "?m \<le> countMatch old new i j 0 0" using True "1.prems"(4) by linarith
        then have run: "\<forall>d<?m. i + d < length old \<and> j + d < length new \<and>
                             old ! (i + d) = new ! (j + d)"
        proof (intro allI impI)
          fix d assume "d < ?m"
          with \<open>?m \<le> countMatch old new i j 0 0\<close>
          have "d < 0 + (countMatch old new i j 0 0 - 0)" by linarith
          from countMatch_run [OF _ this]
          show "i + d < length old \<and> j + d < length new \<and> old ! (i + d) = new ! (j + d)"
            by simp
        qed
        have eq: "take ?m (drop i old) = take ?m (drop j new)"
          using run by (rule run_slices)
        have "j + ?m \<le> length new"
        proof (cases ?m)
          case 0
          then show ?thesis using "1.prems"(2) by simp
        next
          case (Suc m')
          then have "j + m' < length new" using run by simp
          then show ?thesis using Suc by simp
        qed
        moreover have "i + ?m \<le> length old" using "1.prems"(1) by linarith
        ultimately show ?thesis
          using res eq by (intro exI [of _ "map ((#) CHR '' '') (take ?m (drop i old))"]) simp
      next
        case False
        have rec: "hunkBody old new ctx (i + 1) (j + 1) (lines @ [CHR '' '' # old ! i])
                     = (i2, j2, lines2)"
          using "1.prems"(3) same False by (simp add: hunkBody_keep)
        have "i + 1 \<le> length old" "j + 1 \<le> length new" using same by simp_all
        from "1.IH"(1) [OF more same False this rec "1.prems"(4)] obtain ext where ext:
          "lines2 = (lines @ [CHR '' '' # old ! i]) @ ext" "list_all tagged ext"
          "oldSide ext = take (i2 - (i + 1)) (drop (i + 1) old)"
          "newSide ext = take (j2 - (j + 1)) (drop (j + 1) new)"
          "i2 \<le> length old" "j2 \<le> length new"
          by blast
        have lt: "i < i2" "j < j2" using hunkBody_mono [OF rec] by simp_all
        have "oldSide ([CHR '' '' # old ! i] @ ext)
                = old ! i # take (i2 - (i + 1)) (drop (i + 1) old)"
          by (simp add: ext(3))
        also have "\<dots> = take (i2 - i) (drop i old)"
          using same by (intro slice_step [OF lt(1)]) simp
        finally have o: "oldSide ([CHR '' '' # old ! i] @ ext) = take (i2 - i) (drop i old)" .
        have "newSide ([CHR '' '' # old ! i] @ ext)
                = new ! j # take (j2 - (j + 1)) (drop (j + 1) new)"
          using same by (simp add: ext(4))
        also have "\<dots> = take (j2 - j) (drop j new)"
          using same by (intro slice_step [OF lt(2)]) simp
        finally have n: "newSide ([CHR '' '' # old ! i] @ ext) = take (j2 - j) (drop j new)" .
        show ?thesis
          using o n ext(1,2,5,6) by (intro exI [of _ "[CHR '' '' # old ! i] @ ext"]) simp
      qed
    next
      case differ: False
      show ?thesis
      proof (cases "i < length old")
        case True
        have rec: "hunkBody old new ctx (i + 1) j (lines @ [CHR ''-'' # old ! i])
                     = (i2, j2, lines2)"
          using "1.prems"(3) hunkBody_remove [OF differ True] by simp
        have "i + 1 \<le> length old" using True by simp
        from "1.IH"(2) [OF more differ True this "1.prems"(2) rec "1.prems"(4)] obtain ext where ext:
          "lines2 = (lines @ [CHR ''-'' # old ! i]) @ ext" "list_all tagged ext"
          "oldSide ext = take (i2 - (i + 1)) (drop (i + 1) old)"
          "newSide ext = take (j2 - j) (drop j new)"
          "i2 \<le> length old" "j2 \<le> length new"
          by blast
        have lt: "i < i2" using hunkBody_mono [OF rec] by simp
        have "oldSide ([CHR ''-'' # old ! i] @ ext)
                = old ! i # take (i2 - (i + 1)) (drop (i + 1) old)"
          by (simp add: ext(3))
        also have "\<dots> = take (i2 - i) (drop i old)"
          by (rule slice_step [OF lt True])
        finally have o: "oldSide ([CHR ''-'' # old ! i] @ ext) = take (i2 - i) (drop i old)" .
        have n: "newSide ([CHR ''-'' # old ! i] @ ext) = take (j2 - j) (drop j new)"
          using ext(4) by simp
        show ?thesis
          using o n ext(1,2,5,6) by (intro exI [of _ "[CHR ''-'' # old ! i] @ ext"]) simp
      next
        case False
        then have j: "j < length new" using more by simp
        have rec: "hunkBody old new ctx i (j + 1) (lines @ [CHR ''+'' # new ! j])
                     = (i2, j2, lines2)"
          using "1.prems"(3) hunkBody_add [OF False j] by simp
        have "j + 1 \<le> length new" using j by simp
        from "1.IH"(3) [OF more differ False j "1.prems"(1) this rec "1.prems"(4)] obtain ext where ext:
          "lines2 = (lines @ [CHR ''+'' # new ! j]) @ ext" "list_all tagged ext"
          "oldSide ext = take (i2 - i) (drop i old)"
          "newSide ext = take (j2 - (j + 1)) (drop (j + 1) new)"
          "i2 \<le> length old" "j2 \<le> length new"
          by blast
        have lt: "j < j2" using hunkBody_mono [OF rec] by simp
        have "newSide ([CHR ''+'' # new ! j] @ ext)
                = new ! j # take (j2 - (j + 1)) (drop (j + 1) new)"
          by (simp add: ext(4))
        also have "\<dots> = take (j2 - j) (drop j new)"
          by (rule slice_step [OF lt j])
        finally have n: "newSide ([CHR ''+'' # new ! j] @ ext) = take (j2 - j) (drop j new)" .
        have o: "oldSide ([CHR ''+'' # new ! j] @ ext) = take (i2 - i) (drop i old)"
          using ext(3) by simp
        show ?thesis
          using o n ext(1,2,5,6) by (intro exI [of _ "[CHR ''+'' # new ! j] @ ext"]) simp
      qed
    qed
  qed
qed


text \<open>
  Where a hunk ends: at the end of both sequences, or in front of at least \<open>ctx + 1\<close>
  further lines on which the sequences agree (the run was longer than \<open>2 * ctx\<close> and
  \<open>ctx\<close> of its lines went into the hunk).
\<close>

lemma hunkBody_gap:
  assumes "0 \<le> ctx" and "i \<le> length old" and "j \<le> length new"
    and "hunkBody old new ctx i j lines = (i2, j2, lines2)"
    and "wrap64 (ctx * 2) = ctx * 2"
  shows "(length old \<le> i2 \<and> length new \<le> j2) \<or>
         (\<forall>d\<le>nat ctx. i2 + d < length old \<and> j2 + d < length new \<and>
                        old ! (i2 + d) = new ! (j2 + d))"
  using assms
proof (induction old new ctx i j lines rule: hunkBody.induct)
  case (1 old new ctx i j lines)
  show ?case
  proof (cases "i < length old \<or> j < length new")
    case False
    then have "i2 = i" "j2 = j" using "1.prems"(4) by (simp_all add: hunkBody_done)
    then show ?thesis using False by simp
  next
    case more: True
    show ?thesis
    proof (cases "i < length old \<and> j < length new \<and> old ! i = new ! j")
      case same: True
      show ?thesis
      proof (cases "wrap64 (ctx * 2) < int (countMatch old new i j 0 0)")
        case True
        let ?r = "countMatch old new i j 0 0"
        have run: "i + d < length old \<and> j + d < length new \<and> old ! (i + d) = new ! (j + d)"
          if "d < ?r" for d
          using countMatch_run [of 0 d old new i j 0] that by simp
        have big: "2 * nat ctx < ?r" using True "1.prems"(1,5) by linarith
        then have "nat ctx < ?r" by linarith
        from run [OF this] have "nat ctx \<le> length old - i" by linarith
        then have m: "min (nat ctx) (length old - i) = nat ctx" by simp
        have res: "i2 = i + nat ctx" "j2 = j + nat ctx"
          using "1.prems"(4) same True
          by (simp_all add: hunkBody_close trailingContext_spec m)
        have "\<forall>d\<le>nat ctx. i2 + d < length old \<and> j2 + d < length new \<and>
                           old ! (i2 + d) = new ! (j2 + d)"
        proof (intro allI impI)
          fix d assume "d \<le> nat ctx"
          then have "nat ctx + d < ?r" using big by linarith
          from run [OF this] show "i2 + d < length old \<and> j2 + d < length new \<and>
                                   old ! (i2 + d) = new ! (j2 + d)"
            by (simp add: res add.assoc)
        qed
        then show ?thesis by blast
      next
        case False
        have rec: "hunkBody old new ctx (i + 1) (j + 1) (lines @ [CHR '' '' # old ! i])
                     = (i2, j2, lines2)"
          using "1.prems"(4) same False by (simp add: hunkBody_keep)
        have "i + 1 \<le> length old" "j + 1 \<le> length new" using same by simp_all
        from "1.IH"(1) [OF more same False "1.prems"(1) this rec "1.prems"(5)] show ?thesis .
      qed
    next
      case differ: False
      show ?thesis
      proof (cases "i < length old")
        case True
        have rec: "hunkBody old new ctx (i + 1) j (lines @ [CHR ''-'' # old ! i])
                     = (i2, j2, lines2)"
          using "1.prems"(4) hunkBody_remove [OF differ True] by simp
        have "i + 1 \<le> length old" using True by simp
        from "1.IH"(2) [OF more differ True "1.prems"(1) this "1.prems"(3) rec "1.prems"(5)]
        show ?thesis .
      next
        case False
        then have j: "j < length new" using more by simp
        have rec: "hunkBody old new ctx i (j + 1) (lines @ [CHR ''+'' # new ! j])
                     = (i2, j2, lines2)"
          using "1.prems"(4) hunkBody_add [OF False j] by simp
        have "j + 1 \<le> length new" using j by simp
        from "1.IH"(3) [OF more differ False j "1.prems"(1,2) this rec "1.prems"(5)]
        show ?thesis .
      qed
    qed
  qed
qed

lemma hunkBody_nonempty:
  assumes "i < length old \<or> j < length new"
    and "\<not> (i < length old \<and> j < length new \<and> old ! i = new ! j)"
    and "i \<le> length old" and "j \<le> length new"
    and "hunkBody old new ctx i j lines = (i2, j2, lines2)"
    and "wrap64 (ctx * 2) = ctx * 2"
  shows "lines2 \<noteq> []"
proof (cases "i < length old")
  case True
  have rec: "hunkBody old new ctx (i + 1) j (lines @ [CHR ''-'' # old ! i]) = (i2, j2, lines2)"
    using assms(5) hunkBody_remove [OF assms(2) True] by simp
  have "i + 1 \<le> length old" using True by simp
  from hunkBody_spec [OF this assms(4) rec assms(6)] show ?thesis by auto
next
  case False
  then have j: "j < length new" using assms(1) by simp
  have rec: "hunkBody old new ctx i (j + 1) (lines @ [CHR ''+'' # new ! j]) = (i2, j2, lines2)"
    using assms(5) hunkBody_add [OF False j] by simp
  have "j + 1 \<le> length new" using j by simp
  from hunkBody_spec [OF assms(3) this rec assms(6)] show ?thesis by auto
qed

subsection \<open>One turn of the outer loop\<close>

lemma diffLoop_stop:
  assumes "skipEqual old new i j = (i1, j1)" and "length old \<le> i1 \<and> length new \<le> j1"
  shows "diffLoop old new ctx i j hunks = hunks"
  using assms by (subst diffLoop.simps) simp

lemma diffLoop_step:
  assumes "skipEqual old new i j = (i1, j1)"
    and "\<not> (length old \<le> i1 \<and> length new \<le> j1)"
    and "hunkBody old new ctx i1 j1 (leadingContext old (max 0 (wrap64 (int i1 - ctx))) i1)
           = (i2, j2, lines)"
    and "lines \<noteq> []"
  shows "diffLoop old new ctx i j hunks =
           diffLoop old new ctx i2 j2
             (hunks @ [\<lparr>h_OldStart = wrap64 (max 0 (wrap64 (int i1 - ctx)) + 1),
                        h_OldCount = int i2 - max 0 (wrap64 (int i1 - ctx)),
                        h_NewStart = wrap64 (max 0 (wrap64 (int i1 - ctx)) + 1),
                        h_NewCount = int j2 - max 0 (wrap64 (int i1 - ctx)),
                        h_Lines = lines\<rparr>])"
proof -
  have more: "i < length old \<or> j < length new"
  proof (rule ccontr)
    assume "\<not> ?thesis"
    then have "skipEqual old new i j = (i, j)" by (simp add: skipEqual_done)
    then show False using assms(1,2) \<open>\<not> (i < length old \<or> j < length new)\<close> by simp
  qed
  show ?thesis
    using assms more by (subst diffLoop.simps) (auto simp: Let_def)
qed


text \<open>
  The same turn for a context width and a file size at which no operation overflows.
\<close>

lemma diffLoop_step_bounded:
  assumes "0 \<le> ctx" and "ctx < 4611686018427387904"
    and "int (length old) < 9223372036854775807" and "i1 \<le> length old"
    and "skipEqual old new i j = (i1, j1)"
    and "\<not> (length old \<le> i1 \<and> length new \<le> j1)"
    and "hunkBody old new ctx i1 j1 (leadingContext old (max 0 (int i1 - ctx)) i1) = (i2, j2, lines)"
    and "lines \<noteq> []"
  shows "diffLoop old new ctx i j hunks =
           diffLoop old new ctx i2 j2
             (hunks @ [\<lparr>h_OldStart = max 0 (int i1 - ctx) + 1,
                        h_OldCount = int i2 - max 0 (int i1 - ctx),
                        h_NewStart = max 0 (int i1 - ctx) + 1,
                        h_NewCount = int j2 - max 0 (int i1 - ctx),
                        h_Lines = lines\<rparr>])"
proof -
  have w: "wrap64 (int i1 - ctx) = int i1 - ctx"
    using assms(1-4) by (intro wrap64_id) linarith+
  have w1: "wrap64 (max 0 (int i1 - ctx) + 1) = max 0 (int i1 - ctx) + 1"
    using assms(1-4) by (intro wrap64_id) linarith+
  have hb: "hunkBody old new ctx i1 j1 (leadingContext old (max 0 (wrap64 (int i1 - ctx))) i1)
              = (i2, j2, lines)"
    using assms(7) by (simp only: w)
  from diffLoop_step [OF assms(5,6) hb assms(8)] show ?thesis
    by (simp only: w w1)
qed

lemma skipEqual_bounds:
  assumes "i \<le> length old" and "j \<le> length new" and "skipEqual old new i j = (i1, j1)"
  shows "i1 \<le> length old \<and> j1 \<le> length new"
proof -
  from skipEqual_spec [OF assms(3)] obtain n where n: "i1 = i + n" "j1 = j + n"
    "\<forall>d<n. i + d < length old \<and> j + d < length new \<and> old ! (i + d) = new ! (j + d)"
    by blast
  show ?thesis
  proof (cases n)
    case 0
    then show ?thesis using n assms by simp
  next
    case (Suc m)
    then have "i + m < length old \<and> j + m < length new" using n(3) by simp
    then show ?thesis using n(1,2) Suc by simp
  qed
qed

lemma slice_append: "a \<le> b \<Longrightarrow> take (b - a) (drop a xs) @ drop b xs = drop a xs"
proof -
  assume "a \<le> b"
  then have "drop b xs = drop (b - a) (drop a xs)" by simp
  then show ?thesis by (simp only: append_take_drop_id)
qed

lemma slice_join:
  "a \<le> b \<Longrightarrow> b \<le> c \<Longrightarrow>
     take (b - a) (drop a xs) @ take (c - b) (drop b xs) = take (c - a) (drop a xs)"
proof -
  assume ab: "a \<le> b" and bc: "b \<le> c"
  have "take (c - a) (drop a xs) = take ((b - a) + (c - b)) (drop a xs)"
    using ab bc by simp
  also have "\<dots> = take (b - a) (drop a xs) @ take (c - b) (drop (b - a) (drop a xs))"
    by (rule take_add)
  also have "drop (b - a) (drop a xs) = drop b xs" using ab by simp
  finally show ?thesis by simp
qed

lemma leadingContext_slice:
  assumes "0 \<le> start" and "i \<le> length old"
  shows "leadingContext old start i
           = map ((#) CHR '' '') (take (i - nat start) (drop (nat start) old))"
proof -
  have "map (\<lambda>k. CHR '' '' # old ! k) [nat start..<i]
          = map ((#) CHR '' '') (map ((!) old) [nat start..<i])"
    by simp
  also have "map ((!) old) [nat start..<i] = take (i - nat start) (drop (nat start) old)"
  proof (rule nth_equalityI)
    show "length (map ((!) old) [nat start..<i])
            = length (take (i - nat start) (drop (nat start) old))"
      using assms(2) by simp
  next
    fix d assume "d < length (map ((!) old) [nat start..<i])"
    then have d: "d < i - nat start" by simp
    then have "nat start + d < length old" using assms(2) by linarith
    then show "map ((!) old) [nat start..<i] ! d
                 = take (i - nat start) (drop (nat start) old) ! d"
      using d by (simp add: nth_drop)
  qed
  finally show ?thesis by (simp add: leadingContext_def)
qed

lemma diffLoop_acc:
  assumes "i \<le> length old" and "j \<le> length new"
    and dbl: "wrap64 (ctx * 2) = ctx * 2"
  shows "diffLoop old new ctx i j hunks = hunks @ diffLoop old new ctx i j []"
  using assms(1,2)
proof (induction "(length old - i) + (length new - j)" arbitrary: i j hunks rule: less_induct)
  case less
  obtain i1 j1 where sk: "skipEqual old new i j = (i1, j1)"
    by (cases "skipEqual old new i j")
  show ?case
  proof (cases "length old \<le> i1 \<and> length new \<le> j1")
    case True
    then show ?thesis by (simp add: diffLoop_stop [OF sk])
  next
    case False
    let ?start = "max 0 (wrap64 (int i1 - ctx))"
    obtain i2 j2 lines where
      hb: "hunkBody old new ctx i1 j1 (leadingContext old ?start i1) = (i2, j2, lines)"
      by (cases "hunkBody old new ctx i1 j1 (leadingContext old ?start i1)")
    have b1: "i1 \<le> length old" "j1 \<le> length new"
      using skipEqual_bounds [OF less.prems sk] by simp_all
    have more: "i1 < length old \<or> j1 < length new" using False by auto
    have ne: "lines \<noteq> []"
      by (rule hunkBody_nonempty [OF more skipEqual_stop [OF sk] b1 hb dbl])
    have b2: "i2 \<le> length old" "j2 \<le> length new"
      using hunkBody_spec [OF b1 hb dbl] by auto
    have dec: "(length old - i2) + (length new - j2) < (length old - i) + (length new - j)"
      using hunkBody_progress [OF more skipEqual_stop [OF sk] hb] skipEqual_mono [OF sk]
      by linarith
    let ?h = "\<lparr>h_OldStart = wrap64 (?start + 1), h_OldCount = int i2 - ?start,
                h_NewStart = wrap64 (?start + 1), h_NewCount = int j2 - ?start,
                h_Lines = lines\<rparr>"
    have "diffLoop old new ctx i j hunks = diffLoop old new ctx i2 j2 (hunks @ [?h])"
      by (rule diffLoop_step [OF sk False hb ne])
    also have "\<dots> = (hunks @ [?h]) @ diffLoop old new ctx i2 j2 []"
      by (rule less.hyps [OF dec b2])
    also have "\<dots> = hunks @ diffLoop old new ctx i2 j2 ([] @ [?h])"
      using less.hyps [OF dec b2, of "[] @ [?h]"] by simp
    also have "diffLoop old new ctx i2 j2 ([] @ [?h]) = diffLoop old new ctx i j []"
      by (rule diffLoop_step [OF sk False hb ne, symmetric])
    finally show ?thesis .
  qed
qed


subsection \<open>The hunks are an edit script from the old file to the new one\<close>

text \<open>
  The invariant of the outer loop, seen from the applier: \<open>p\<close> old lines and \<open>q\<close> new
  lines are behind the last hunk, the sequences agree from \<open>(p, q)\<close> up to \<open>(i, j)\<close>,
  and (after a first hunk) either both sequences are used up or at least \<open>ctx + 1\<close>
  lines agree from \<open>(p, q)\<close> on, so that the context of the next hunk starts behind
  \<open>p\<close>.
\<close>

lemma diffLoop_apply:
  assumes "0 \<le> ctx" and "ctx < 4611686018427387904"
    and "int (length old) < 9223372036854775807"
    and "p \<le> i" and "i \<le> length old" and "j \<le> length new" and "q + (i - p) = j"
    and "\<forall>d<i - p. old ! (p + d) = new ! (q + d)"
    and "p = 0 \<or> (length old \<le> i \<and> length new \<le> j) \<or>
         (\<forall>d\<le>nat ctx. p + d < length old \<and> q + d < length new \<and>
                        old ! (p + d) = new ! (q + d))"
  shows "applyHunks (diffLoop old new ctx i j []) p (drop p old) = Some (drop q new)"
  using assms(4-)
proof (induction "(length old - i) + (length new - j)" arbitrary: i j p q rule: less_induct)
  case less
  note ctx = \<open>0 \<le> ctx\<close>
  note small = \<open>ctx < 4611686018427387904\<close> \<open>int (length old) < 9223372036854775807\<close>
  have dbl: "wrap64 (ctx * 2) = ctx * 2"
    using ctx small(1) by (intro wrap64_id) linarith+
  obtain i1 j1 where sk: "skipEqual old new i j = (i1, j1)"
    by (cases "skipEqual old new i j")
  from skipEqual_spec [OF sk] obtain n where n: "i1 = i + n" "j1 = j + n"
    "\<forall>d<n. i + d < length old \<and> j + d < length new \<and> old ! (i + d) = new ! (j + d)"
    by blast
  have b1: "i1 \<le> length old" "j1 \<le> length new"
    using skipEqual_bounds [OF less.prems(2,3) sk] by simp_all
  have q1: "q + (i1 - p) = j1" using less.prems(1,4) n(1,2) by simp
  have agree: "old ! (p + d) = new ! (q + d)" if "d < i1 - p" for d
  proof (cases "d < i - p")
    case True
    then show ?thesis using less.prems(5) by simp
  next
    case False
    then have "d - (i - p) < n" using that n(1) less.prems(1) by linarith
    then have eq: "old ! (i + (d - (i - p))) = new ! (j + (d - (i - p)))" using n(3) by blast
    have e1: "i + (d - (i - p)) = p + d" using False less.prems(1) by linarith
    have e2: "j + (d - (i - p)) = q + d" using False less.prems(1,4) by linarith
    from eq show ?thesis by (simp only: e1 e2)
  qed
  have same: "take (i1 - p) (drop p old) = take (i1 - p) (drop q new)"
  proof (rule run_slices, intro allI impI)
    fix d assume d: "d < i1 - p"
    then have "p + d < length old" "q + d < length new" using b1 q1 by linarith+
    then show "p + d < length old \<and> q + d < length new \<and> old ! (p + d) = new ! (q + d)"
      using agree [OF d] by simp
  qed
  have p1: "p \<le> i1" using less.prems(1) n(1) by simp
  have q1': "q \<le> j1" using q1 by linarith
  show ?case
  proof (cases "length old \<le> i1 \<and> length new \<le> j1")
    case True
    then have i1: "i1 = length old" and j1: "j1 = length new" using b1 by simp_all
    have "drop p old = take (i1 - p) (drop p old)" using i1 by simp
    also have "\<dots> = take (i1 - p) (drop q new)" by (rule same)
    also have "\<dots> = drop q new" using q1 j1 by simp
    finally show ?thesis using True by (simp add: diffLoop_stop [OF sk])
  next
    case False
    let ?start = "max 0 (int i1 - ctx)"
    let ?s = "nat ?start"
    obtain i2 j2 lines where
      hb: "hunkBody old new ctx i1 j1 (leadingContext old ?start i1) = (i2, j2, lines)"
      by (cases "hunkBody old new ctx i1 j1 (leadingContext old ?start i1)")
    have more: "i1 < length old \<or> j1 < length new" using False by auto
    have stop: "\<not> (i1 < length old \<and> j1 < length new \<and> old ! i1 = new ! j1)"
      by (rule skipEqual_stop [OF sk])
    have ne: "lines \<noteq> []"
      by (rule hunkBody_nonempty [OF more stop b1 hb dbl])
    from hunkBody_spec [OF b1 hb dbl] obtain ext where ext:
      "lines = leadingContext old ?start i1 @ ext" "list_all tagged ext"
      "oldSide ext = take (i2 - i1) (drop i1 old)"
      "newSide ext = take (j2 - j1) (drop j1 new)"
      "i2 \<le> length old" "j2 \<le> length new"
      by blast
    have mono2: "i1 \<le> i2" "j1 \<le> j2" using hunkBody_mono [OF hb] by simp_all
    have dec: "(length old - i2) + (length new - j2) < (length old - i) + (length new - j)"
      using hunkBody_progress [OF more stop hb] skipEqual_mono [OF sk] by linarith
    have s_le: "?s \<le> i1" using ctx by linarith
    have p_le: "p \<le> ?s"
    proof (cases "p = 0")
      case True
      then show ?thesis by simp
    next
      case False
      then have "\<forall>d\<le>nat ctx. p + d < length old \<and> q + d < length new \<and>
                               old ! (p + d) = new ! (q + d)"
        using less.prems(6) \<open>\<not> (length old \<le> i1 \<and> length new \<le> j1)\<close> n(1,2) by auto
      then have run: "p + d < length old \<and> q + d < length new \<and> old ! (p + d) = new ! (q + d)"
        if "d \<le> nat ctx" for d using that by blast
      have "nat ctx < i1 - p"
      proof (rule ccontr)
        assume "\<not> nat ctx < i1 - p"
        then have "i1 - p \<le> nat ctx" by simp
        from run [OF this] have "i1 < length old \<and> j1 < length new \<and> old ! i1 = new ! j1"
          using p1 q1 by (simp add: add.commute)
        with stop show False by simp
      qed
      then show ?thesis using ctx by linarith
    qed
    have lead: "leadingContext old ?start i1
                  = map ((#) CHR '' '') (take (i1 - ?s) (drop ?s old))"
      by (rule leadingContext_slice) (simp_all add: b1)
    have tagged: "list_all tagged lines"
      using ext(1,2) lead by simp
    have oldS: "oldSide lines = take (i2 - ?s) (drop ?s old)"
      using ext(1,3) lead slice_join [OF s_le mono2(1), of old] by simp
    have newS: "newSide lines = take (i1 - ?s) (drop ?s old) @ take (j2 - j1) (drop j1 new)"
      using ext(1,4) lead by simp
    let ?h = "\<lparr>h_OldStart = ?start + 1, h_OldCount = int i2 - ?start,
                h_NewStart = ?start + 1, h_NewCount = int j2 - ?start, h_Lines = lines\<rparr>"
    have unfold: "diffLoop old new ctx i j [] = ?h # diffLoop old new ctx i2 j2 []"
    proof -
      have "diffLoop old new ctx i j [] = diffLoop old new ctx i2 j2 ([] @ [?h])"
        by (rule diffLoop_step_bounded [OF ctx small b1(1) sk False hb ne])
      also have "\<dots> = ([] @ [?h]) @ diffLoop old new ctx i2 j2 []"
        by (rule diffLoop_acc [OF ext(5,6) dbl])
      finally show ?thesis by simp
    qed
    have gap2: "i2 = 0 \<or> (length old \<le> i2 \<and> length new \<le> j2) \<or>
                (\<forall>d\<le>nat ctx. i2 + d < length old \<and> j2 + d < length new \<and>
                               old ! (i2 + d) = new ! (j2 + d))"
      using hunkBody_gap [OF ctx b1 hb dbl] by blast
    have IH: "applyHunks (diffLoop old new ctx i2 j2 []) i2 (drop i2 old) = Some (drop j2 new)"
      by (rule less.hyps [OF dec _ ext(5,6) _ _ gap2]) simp_all
    have rest: "drop ?s old = oldSide lines @ drop i2 old"
      using oldS slice_append [of ?s i2 old] s_le mono2(1) by simp
    have lines: "applyLines lines (drop (?s - p) (drop p old)) = Some (newSide lines, drop i2 old)"
      using applyLines_sides [OF tagged, of "drop i2 old"] rest p_le by simp
    have pos: "p + (length (drop p old) - length (drop i2 old)) = i2"
      using ext(5) mono2(1) p1 by simp
    have "take (?s - p) (drop p old) @ newSide lines @ drop j2 new
            = (take (?s - p) (drop p old) @ take (i1 - ?s) (drop ?s old))
               @ (take (j2 - j1) (drop j1 new) @ drop j2 new)"
      by (simp add: newS)
    also have "take (?s - p) (drop p old) @ take (i1 - ?s) (drop ?s old)
                 = take (i1 - p) (drop p old)"
      by (rule slice_join [OF p_le s_le])
    also have "take (j2 - j1) (drop j1 new) @ drop j2 new = drop j1 new"
      by (rule slice_append [OF mono2(2)])
    also have "take (i1 - p) (drop p old) = take (i1 - p) (drop q new)" by (rule same)
    also have "take (i1 - p) (drop q new) @ drop j1 new = drop q new"
    proof -
      have "i1 - p = j1 - q" using q1 by linarith
      then show ?thesis using slice_append [OF q1', of new] by (simp only:)
    qed
    finally have result: "take (?s - p) (drop p old) @ newSide lines @ drop j2 new = drop q new" .
    have hs: "h_OldStart ?h - 1 = ?start" "h_Lines ?h = lines" by simp_all
    have range: "\<not> (?start < int p \<or> int p + int (length (drop p old)) < ?start)"
    proof -
      have "int p \<le> ?start" using p_le by linarith
      moreover have "?start \<le> int (length old)" using s_le b1(1) by linarith
      moreover have "int p + int (length (drop p old)) = int (length old)"
        using p1 b1(1) by simp
      ultimately show ?thesis by linarith
    qed
    show ?thesis
      unfolding unfold applyHunks.simps hs
      using range by (simp only: if_False Let_def lines option.case prod.case pos IH result)
  qed
qed


text \<open>
  For a context width from 0 to below \<open>2^62\<close>, the hunks of \<open>computeDiff\<close>, each taken
  with all of its lines whatever the counts of its header say, are an edit script
  from \<open>old\<close> to \<open>new\<close>.
\<close>

lemma computeDiff_edit_script:
  "0 \<le> ctx \<Longrightarrow> ctx < 4611686018427387904 \<Longrightarrow> int (length old) < 9223372036854775807 \<Longrightarrow>
     applyHunks (computeDiff old new ctx) 0 old = Some new"
  using diffLoop_apply [of ctx old 0 0 0 new 0] by (simp add: computeDiff_def)

text \<open>
  The diff of \<open>x a b c d e f g y\<close> against \<open>a b c d e f g z\<close> with the default context
  of three lines.
\<close>

lemma computeDiff_example:
  "computeDiff [''x'', ''a'', ''b'', ''c'', ''d'', ''e'', ''f'', ''g'', ''y'']
               [''a'', ''b'', ''c'', ''d'', ''e'', ''f'', ''g'', ''z''] 3 =
     [\<lparr>h_OldStart = 1, h_OldCount = 4, h_NewStart = 1, h_NewCount = 3,
       h_Lines = [''-x'', '' a'', '' b'', '' c'']\<rparr>,
      \<lparr>h_OldStart = 6, h_OldCount = 4, h_NewStart = 6, h_NewCount = 3,
       h_Lines = ['' e'', '' f'', '' g'', ''-y'', ''+z'']\<rparr>]"
  by code_simp

text \<open>
  C1 at this diff. The header of the second hunk gives the new count 3, and the hunk
  holds four new-tagged lines. A reader of the patch has both counts complete after
  the line \<open>-y\<close>, so the hunk ends there and the line \<open>+z\<close> is not part of it: the
  patch applies, and it turns the old file into \<open>a b c d e f g\<close>, not into the new
  file.
\<close>

theorem computeDiff_patch_loses_line:
  "applyPatch (computeDiff [''x'', ''a'', ''b'', ''c'', ''d'', ''e'', ''f'', ''g'', ''y'']
                           [''a'', ''b'', ''c'', ''d'', ''e'', ''f'', ''g'', ''z''] 3)
              [''x'', ''a'', ''b'', ''c'', ''d'', ''e'', ''f'', ''g'', ''y'']
     = Some [''a'', ''b'', ''c'', ''d'', ''e'', ''f'', ''g''] \<and>
   applyPatch (computeDiff [''x'', ''a'', ''b'', ''c'', ''d'', ''e'', ''f'', ''g'', ''y'']
                           [''a'', ''b'', ''c'', ''d'', ''e'', ''f'', ''g'', ''z''] 3)
              [''x'', ''a'', ''b'', ''c'', ''d'', ''e'', ''f'', ''g'', ''y'']
     \<noteq> Some [''a'', ''b'', ''c'', ''d'', ''e'', ''f'', ''g'', ''z'']"
  unfolding computeDiff_example
  by (simp add: applyPatch_def readHunk_def isOldLine_def isNewLine_def)

text \<open>
  A second way to lose a change, at a context width of \<open>2^62\<close>: the product \<open>ctx*2\<close>
  wraps to \<open>-2^63\<close>, so the first matching line closes the hunk, and the loop that
  writes the trailing context copies the rest of \<open>old\<close> without looking at \<open>new\<close>.
  The hunk for \<open>a b c\<close> against \<open>b d\<close> does not hold the change of \<open>c\<close> into \<open>d\<close>.
\<close>

lemma computeDiff_overflow_example:
  "computeDiff [''a'', ''b'', ''c''] [''b'', ''d''] 4611686018427387904 =
     [\<lparr>h_OldStart = 1, h_OldCount = 3, h_NewStart = 1, h_NewCount = 2,
       h_Lines = [''-a'', '' b'', '' c'']\<rparr>]"
  by code_simp

subsection \<open>The header counts of the hunks\<close>

lemma diffLoop_old_count:
  assumes "0 \<le> ctx" and "ctx < 4611686018427387904"
    and "int (length old) < 9223372036854775807"
    and "i \<le> length old" and "j \<le> length new"
  shows "list_all (\<lambda>h. int (oldTagged (h_Lines h)) = h_OldCount h)
           (diffLoop old new ctx i j [])"
  using assms(4-)
proof (induction "(length old - i) + (length new - j)" arbitrary: i j rule: less_induct)
  case less
  note ctx = \<open>0 \<le> ctx\<close>
  note small = \<open>ctx < 4611686018427387904\<close> \<open>int (length old) < 9223372036854775807\<close>
  have dbl: "wrap64 (ctx * 2) = ctx * 2"
    using ctx small(1) by (intro wrap64_id) linarith+
  obtain i1 j1 where sk: "skipEqual old new i j = (i1, j1)"
    by (cases "skipEqual old new i j")
  have b1: "i1 \<le> length old" "j1 \<le> length new"
    using skipEqual_bounds [OF less.prems sk] by simp_all
  show ?case
  proof (cases "length old \<le> i1 \<and> length new \<le> j1")
    case True
    then show ?thesis by (simp add: diffLoop_stop [OF sk])
  next
    case False
    let ?start = "max 0 (int i1 - ctx)"
    let ?s = "nat ?start"
    obtain i2 j2 lines where
      hb: "hunkBody old new ctx i1 j1 (leadingContext old ?start i1) = (i2, j2, lines)"
      by (cases "hunkBody old new ctx i1 j1 (leadingContext old ?start i1)")
    have more: "i1 < length old \<or> j1 < length new" using False by auto
    have stop: "\<not> (i1 < length old \<and> j1 < length new \<and> old ! i1 = new ! j1)"
      by (rule skipEqual_stop [OF sk])
    have ne: "lines \<noteq> []"
      by (rule hunkBody_nonempty [OF more stop b1 hb dbl])
    from hunkBody_spec [OF b1 hb dbl] obtain ext where ext:
      "lines = leadingContext old ?start i1 @ ext"
      "oldSide ext = take (i2 - i1) (drop i1 old)"
      "i2 \<le> length old" "j2 \<le> length new"
      by blast
    have mono2: "i1 \<le> i2" using hunkBody_mono [OF hb] by simp
    have dec: "(length old - i2) + (length new - j2) < (length old - i) + (length new - j)"
      using hunkBody_progress [OF more stop hb] skipEqual_mono [OF sk] by linarith
    have s_le: "?s \<le> i1" using ctx by linarith
    have lead: "leadingContext old ?start i1
                  = map ((#) CHR '' '') (take (i1 - ?s) (drop ?s old))"
      by (rule leadingContext_slice) (simp_all add: b1)
    have "oldSide lines = take (i2 - ?s) (drop ?s old)"
      using ext(1,2) lead slice_join [OF s_le mono2, of old] by simp
    then have "length (oldSide lines) = i2 - ?s" using ext(3) by simp
    then have count: "int (oldTagged lines) = int i2 - ?start"
      using s_le mono2 by (simp add: oldTagged_oldSide)
    let ?h = "\<lparr>h_OldStart = ?start + 1, h_OldCount = int i2 - ?start,
                h_NewStart = ?start + 1, h_NewCount = int j2 - ?start, h_Lines = lines\<rparr>"
    have "diffLoop old new ctx i j [] = diffLoop old new ctx i2 j2 ([] @ [?h])"
      by (rule diffLoop_step_bounded [OF ctx small b1(1) sk False hb ne])
    also have "\<dots> = ([] @ [?h]) @ diffLoop old new ctx i2 j2 []"
      by (rule diffLoop_acc [OF ext(3,4) dbl])
    finally have unfold: "diffLoop old new ctx i j [] = ?h # diffLoop old new ctx i2 j2 []"
      by simp
    show ?thesis
      unfolding unfold using count less.hyps [OF dec ext(3,4)] by simp
  qed
qed

text \<open>The old count of every hunk is the number of its old-tagged lines.\<close>

lemma computeDiff_old_count:
  "0 \<le> ctx \<Longrightarrow> ctx < 4611686018427387904 \<Longrightarrow>
   int (length old) < 9223372036854775807 \<Longrightarrow> h \<in> set (computeDiff old new ctx) \<Longrightarrow>
     int (oldTagged (h_Lines h)) = h_OldCount h"
  using diffLoop_old_count [of ctx old 0 0 new]
  by (simp add: computeDiff_def list_all_iff)

text \<open>
  C6 at a concrete diff, with the default context of three lines. The first hunk
  removes \<open>x\<close>, so the second hunk starts at line 5 of the new file and covers four of
  its lines (\<open>e\<close>, \<open>f\<close>, \<open>g\<close>, \<open>z\<close>). Its header gives the new start 6 and the new
  count 3: both are computed from \<open>start\<close>, which indexes the old file.
\<close>

theorem computeDiff_new_count_wrong:
  "computeDiff [''x'', ''a'', ''b'', ''c'', ''d'', ''e'', ''f'', ''g'', ''y'']
               [''a'', ''b'', ''c'', ''d'', ''e'', ''f'', ''g'', ''z''] 3 ! 1 =
     \<lparr>h_OldStart = 6, h_OldCount = 4, h_NewStart = 6, h_NewCount = 3,
       h_Lines = ['' e'', '' f'', '' g'', ''-y'', ''+z'']\<rparr> \<and>
   newTagged ['' e'', '' f'', '' g'', ''-y'', ''+z''] = 4 \<and>
   oldTagged ['' e'', '' f'', '' g'', ''-y'', ''+z''] = 4"
  unfolding computeDiff_example
  by (simp add: newTagged_def oldTagged_def isNewLine_def isOldLine_def)

section \<open>FileIndexer: which files of the tree are indexed\<close>

text \<open>
  The tree under the directory given to the indexer, as \<open>filepath.Walk\<close> meets it: a
  file with its name, size and modification time; a directory with its name and
  entries (in the order of the walk, which is the order of their names); and an entry
  whose \<open>Lstat\<close> fails, for which the callback gets an error. A directory that cannot
  be read is met like a directory without entries: the callback gets the error,
  returns \<open>nil\<close>, and the walk does not descend.
\<close>

datatype fsnode =
    FileN string int int
  | DirN string "fsnode list"
  | ErrN string

fun nodeName :: "fsnode \<Rightarrow> string" where
  "nodeName (FileN name sz mtime) = name"
| "nodeName (DirN name entries) = name"
| "nodeName (ErrN name) = name"








text \<open>
  \<open>filepath.Join(dir, name)\<close> for a directory path in the cleaned form and the name of
  one of its entries. The directory given to the indexer is taken in its cleaned form
  (\<open>filepath.Clean(dir) = dir\<close>); the paths the walk builds from it are then cleaned
  too, and the calls of \<open>filepath.Clean\<close> in \<open>indexDirectory\<close> return their argument.
\<close>

definition joinPath :: "string \<Rightarrow> string \<Rightarrow> string" where
  "joinPath dir name =
     (if dir = [] \<or> dir = ''.'' then name
      else if dir = ''/'' then dir @ name
      else dir @ ''/'' @ name)"












text \<open>
  Every file of the tree, with its path and the names of the directories above it
  (the root directory first). This enumeration does not look at any filter.
\<close>

fun files :: "string \<Rightarrow> string list \<Rightarrow> fsnode \<Rightarrow> (string \<times> string list) list"
  and filesIn :: "string \<Rightarrow> string list \<Rightarrow> fsnode list \<Rightarrow> (string \<times> string list) list" where
  "files path dirs (ErrN name) = []"
| "files path dirs (FileN name sz mtime) = [(path, dirs)]"
| "files path dirs (DirN name entries) = filesIn path (dirs @ [name]) entries"
| "filesIn dir dirs [] = []"
| "filesIn dir dirs (e # es) =
     files (joinPath dir (nodeName e)) dirs e @ filesIn dir dirs es"




















end
